theory Spec2Isabelle
  imports Complex_Main "HOL-Library.Sublist"
begin

section \<open>Data model of the diff engine\<close>

text \<open>
  The change records of \<^verbatim>\<open>computeUnifiedDiff\<close> are objects
  \<^verbatim>\<open>{ type: 'equal' | 'delete' | 'insert'; lineA?: number; lineB?: number; text: string }\<close>.
  The optional fields are options; the field \<^verbatim>\<open>type\<close> is \<open>ctype\<close> and the field
  \<^verbatim>\<open>text\<close> is \<open>ctext\<close>.
\<close>

datatype change_type = Equal | Delete | Insert

record change =
  ctype :: change_type
  lineA :: "nat option"
  lineB :: "nat option"
  ctext :: string

text \<open>The interface \<^verbatim>\<open>DiffHunk\<close>.\<close>

record DiffHunk =
  startA :: int
  countA :: nat
  startB :: int
  countB :: nat
  lines :: "string list"

section \<open>The table of \<^verbatim>\<open>computeLCS\<close>\<close>

text \<open>
  One assignment \<^verbatim>\<open>dp[i][j] = ...\<close> of the inner loop body. The table is a list of
  rows; both loops keep \<open>1 \<le> i \<le> m\<close> and \<open>1 \<le> j \<le> n\<close>, so every read and write is in range.
\<close>

definition lcs_cell :: "string list \<Rightarrow> string list \<Rightarrow> nat list list \<Rightarrow> nat \<Rightarrow> nat \<Rightarrow> nat list list" where
  "lcs_cell a b dp i j =
     (if a ! (i - 1) = b ! (j - 1)
      then dp[i := (dp ! i)[j := dp ! (i - 1) ! (j - 1) + 1]]
      else dp[i := (dp ! i)[j := max (dp ! (i - 1) ! j) (dp ! i ! (j - 1))]])"

text \<open>\<^verbatim>\<open>for (let j = 1; j <= n; j++)\<close>\<close>

function lcs_inner :: "string list \<Rightarrow> string list \<Rightarrow> nat \<Rightarrow> nat \<Rightarrow> nat list list \<Rightarrow> nat list list" where
  "lcs_inner a b i j dp =
     (if j \<le> length b then lcs_inner a b i (j + 1) (lcs_cell a b dp i j) else dp)"
  by pat_completeness auto
termination
  by (relation "measure (\<lambda>(a, b, i, j, dp). length b + 1 - j)") auto

declare lcs_inner.simps [simp del]

text \<open>\<^verbatim>\<open>for (let i = 1; i <= m; i++)\<close>\<close>

function lcs_outer :: "string list \<Rightarrow> string list \<Rightarrow> nat \<Rightarrow> nat list list \<Rightarrow> nat list list" where
  "lcs_outer a b i dp =
     (if i \<le> length a then lcs_outer a b (i + 1) (lcs_inner a b i 1 dp) else dp)"
  by pat_completeness auto
termination
  by (relation "measure (\<lambda>(a, b, i, dp). length a + 1 - i)") auto

declare lcs_outer.simps [simp del]

definition computeLCS :: "string list \<Rightarrow> string list \<Rightarrow> nat list list" where
  "computeLCS a b =
     (let m = length a; n = length b;
          dp = replicate (m + 1) (replicate (n + 1) 0)
      in lcs_outer a b 1 dp)"

section \<open>The backtracking phase of \<^verbatim>\<open>computeUnifiedDiff\<close>\<close>

text \<open>
  The loop \<^verbatim>\<open>while (i > 0 || j > 0)\<close>. It is a partial function into \<open>option\<close>: a run
  that did not leave the loop would be \<open>None\<close>. The list \<open>bt\<close> is the array
  \<^verbatim>\<open>backtrack\<close>, and \<^verbatim>\<open>push\<close> appends at its end.
\<close>

partial_function (option) backtrack_loop ::
  "string list \<Rightarrow> string list \<Rightarrow> nat list list \<Rightarrow> nat \<Rightarrow> nat \<Rightarrow> change list \<Rightarrow> change list option" where
  "backtrack_loop a b dp i j bt =
     (if i > 0 \<or> j > 0 then
        (if i > 0 \<and> j > 0 \<and> a ! (i - 1) = b ! (j - 1) then
           backtrack_loop a b dp (i - 1) (j - 1)
             (bt @ [\<lparr>ctype = Equal, lineA = Some (i - 1), lineB = Some (j - 1), ctext = a ! (i - 1)\<rparr>])
         else if j > 0 \<and> (i = 0 \<or> dp ! i ! (j - 1) \<ge> dp ! (i - 1) ! j) then
           backtrack_loop a b dp i (j - 1)
             (bt @ [\<lparr>ctype = Insert, lineA = None, lineB = Some (j - 1), ctext = b ! (j - 1)\<rparr>])
         else
           backtrack_loop a b dp (i - 1) j
             (bt @ [\<lparr>ctype = Delete, lineA = Some (i - 1), lineB = None, ctext = a ! (i - 1)\<rparr>]))
      else Some bt)"

text \<open>
  Lines 1050 to 1071: the table, the loop from \<open>(length linesA, length linesB)\<close>, then
  \<^verbatim>\<open>backtrack.reverse()\<close>; the result is the array \<^verbatim>\<open>changes\<close>.
\<close>

definition backtrack :: "string list \<Rightarrow> string list \<Rightarrow> change list option" where
  "backtrack linesA linesB =
     (let dp = computeLCS linesA linesB
      in map_option rev (backtrack_loop linesA linesB dp (length linesA) (length linesB) []))"

declare backtrack_loop.simps [code]

section \<open>Grouping the changes into hunks\<close>

text \<open>
  The mutable variables of lines 1074 to 1080. \<^verbatim>\<open>lastChangeIdx\<close> starts at \<open>-999\<close>, so it
  is an integer; the start positions are integers because line 1114 subtracts before it
  clamps at zero.
\<close>

record gstate =
  hunks :: "DiffHunk list"
  hunkLines :: "string list"
  hunkStartA :: int
  hunkStartB :: int
  hunkCountA :: nat
  hunkCountB :: nat
  lastChangeIdx :: int

definition init_gstate :: gstate where
  "init_gstate =
     \<lparr>hunks = [], hunkLines = [], hunkStartA = 0, hunkStartB = 0,
      hunkCountA = 0, hunkCountB = 0, lastChangeIdx = - 999\<rparr>"

text \<open>
  Lines 1092 to 1098 and 1144 to 1150:
  \<^verbatim>\<open>for (let k = lastChangeIdx + 1; k < changes.length && trailingAdded < contextLines; k++)\<close>.
  A record that is not equal is skipped, it does not end the loop.
\<close>

function trailing_loop :: "change list \<Rightarrow> nat \<Rightarrow> nat \<Rightarrow> nat \<Rightarrow> gstate \<Rightarrow> gstate" where
  "trailing_loop changes contextLines k trailingAdded s =
     (if k < length changes \<and> trailingAdded < contextLines then
        (if ctype (changes ! k) = Equal then
           trailing_loop changes contextLines (k + 1) (trailingAdded + 1)
             (s\<lparr>hunkLines := hunkLines s @ [CHR '' '' # ctext (changes ! k)],
                hunkCountA := hunkCountA s + 1, hunkCountB := hunkCountB s + 1\<rparr>)
         else trailing_loop changes contextLines (k + 1) trailingAdded s)
      else s)"
  by pat_completeness auto
termination
  by (relation "measure (\<lambda>(changes, contextLines, k, trailingAdded, s). length changes - k)") auto

declare trailing_loop.simps [simp del]

text \<open>
  The trailing context and \<^verbatim>\<open>hunks.push({...})\<close> (lines 1091 to 1099 and 1143 to 1151).
  Both callers run it with \<^verbatim>\<open>hunkLines.length > 0\<close>, when \<^verbatim>\<open>lastChangeIdx\<close> is the
  index of a record, so \<open>lastChangeIdx + 1\<close> is a natural number.
\<close>

definition close_hunk :: "change list \<Rightarrow> nat \<Rightarrow> gstate \<Rightarrow> gstate" where
  "close_hunk changes contextLines s =
     (let s1 = trailing_loop changes contextLines (nat (lastChangeIdx s + 1)) 0 s
      in s1\<lparr>hunks := hunks s1 @
               [\<lparr>startA = hunkStartA s1, countA = hunkCountA s1,
                 startB = hunkStartB s1, countB = hunkCountB s1, lines = hunkLines s1\<rparr>]\<rparr>)"

text \<open>
  Lines 1106 to 1112:
  \<^verbatim>\<open>for (let k = idx - 1; k >= 0 && contextCount < contextLines; k--)\<close> with its
  \<^verbatim>\<open>break\<close> at the first record that is not equal; \<^verbatim>\<open>unshift\<close> puts the line in front.
  The result is \<^verbatim>\<open>contextCount\<close> and the new \<^verbatim>\<open>hunkLines\<close>.
\<close>

function leading_loop :: "change list \<Rightarrow> nat \<Rightarrow> int \<Rightarrow> nat \<Rightarrow> string list \<Rightarrow> nat \<times> string list" where
  "leading_loop changes contextLines k contextCount hl =
     (if k \<ge> 0 \<and> contextCount < contextLines then
        (if ctype (changes ! nat k) = Equal then
           leading_loop changes contextLines (k - 1) (contextCount + 1)
             ((CHR '' '' # ctext (changes ! nat k)) # hl)
         else (contextCount, hl))
      else (contextCount, hl))"
  by pat_completeness auto
termination
  by (relation "measure (\<lambda>(changes, contextLines, k, contextCount, hl). nat (k + 1))") auto

declare leading_loop.simps [simp del]

text \<open>
  Lines 1114 to 1117, once for \<^verbatim>\<open>lineA\<close> and once for \<^verbatim>\<open>lineB\<close>:
  \<^verbatim>\<open>(c.lineA !== undefined ? c.lineA : (changes[idx - 1]?.lineA !== undefined ? changes[idx - 1].lineA! + 1 : 0)) - contextCount\<close>,
  then zero if that is negative. At \<open>idx = 0\<close> the read \<^verbatim>\<open>changes[-1]\<close> is
  \<^verbatim>\<open>undefined\<close> and the optional chaining gives the last branch.
\<close>

definition hunk_start :: "(change \<Rightarrow> nat option) \<Rightarrow> change list \<Rightarrow> nat \<Rightarrow> nat \<Rightarrow> int" where
  "hunk_start line changes idx contextCount =
     (let v = (case line (changes ! idx) of
                 Some l \<Rightarrow> int l
               | None \<Rightarrow>
                   (if idx > 0 then
                      (case line (changes ! (idx - 1)) of Some l \<Rightarrow> int l + 1 | None \<Rightarrow> 0)
                    else 0)) - int contextCount
      in if v < 0 then 0 else v)"

text \<open>Lines 1122 to 1127: \<^verbatim>\<open>for (let k = lastChangeIdx + 1; k < idx; k++)\<close>.\<close>

function gap_loop :: "change list \<Rightarrow> nat \<Rightarrow> nat \<Rightarrow> gstate \<Rightarrow> gstate" where
  "gap_loop changes k idx s =
     (if k < idx then
        (if ctype (changes ! k) = Equal then
           gap_loop changes (k + 1) idx
             (s\<lparr>hunkLines := hunkLines s @ [CHR '' '' # ctext (changes ! k)],
                hunkCountA := hunkCountA s + 1, hunkCountB := hunkCountB s + 1\<rparr>)
         else gap_loop changes (k + 1) idx s)
      else s)"
  by pat_completeness auto
termination
  by (relation "measure (\<lambda>(changes, k, idx, s). idx - k)") auto

declare gap_loop.simps [simp del]

text \<open>The body of the loop over \<^verbatim>\<open>idx\<close> (lines 1083 to 1138).\<close>

definition hunk_step :: "change list \<Rightarrow> nat \<Rightarrow> nat \<Rightarrow> gstate \<Rightarrow> gstate" where
  "hunk_step changes contextLines idx s =
     (let c = changes ! idx in
      if ctype c \<noteq> Equal then
        (let s1 =
           (if int idx - lastChangeIdx s > int contextLines * 2 + 1 \<and> length (hunks s) = 0
                 \<and> length (hunkLines s) = 0 \<and> lastChangeIdx s < 0 then s
            else if int idx - lastChangeIdx s > int contextLines * 2 + 1 \<and> length (hunkLines s) > 0 then
              (close_hunk changes contextLines s)\<lparr>hunkLines := [], hunkCountA := 0, hunkCountB := 0\<rparr>
            else s);
          s2 =
           (if length (hunkLines s1) = 0 then
              (let (contextCount, hl) = leading_loop changes contextLines (int idx - 1) 0 (hunkLines s1)
               in s1\<lparr>hunkLines := hl,
                     hunkStartA := hunk_start lineA changes idx contextCount,
                     hunkStartB := hunk_start lineB changes idx contextCount,
                     hunkCountA := contextCount, hunkCountB := contextCount\<rparr>)
            else gap_loop changes (nat (lastChangeIdx s1 + 1)) idx s1);
          s3 =
           (if ctype c = Delete then
              s2\<lparr>hunkLines := hunkLines s2 @ [CHR ''-'' # ctext c], hunkCountA := hunkCountA s2 + 1\<rparr>
            else
              s2\<lparr>hunkLines := hunkLines s2 @ [CHR ''+'' # ctext c], hunkCountB := hunkCountB s2 + 1\<rparr>)
         in s3\<lparr>lastChangeIdx := int idx\<rparr>)
      else s)"

text \<open>\<^verbatim>\<open>for (let idx = 0; idx < changes.length; idx++)\<close>\<close>

function hunk_loop :: "change list \<Rightarrow> nat \<Rightarrow> nat \<Rightarrow> gstate \<Rightarrow> gstate" where
  "hunk_loop changes contextLines idx s =
     (if idx < length changes then
        hunk_loop changes contextLines (idx + 1) (hunk_step changes contextLines idx s)
      else s)"
  by pat_completeness auto
termination
  by (relation "measure (\<lambda>(changes, contextLines, idx, s). length changes - idx)") auto

declare hunk_loop.simps [simp del]

text \<open>Lines 1074 to 1152: the loop, then the last hunk is closed if one is open.\<close>

definition group_hunks :: "change list \<Rightarrow> nat \<Rightarrow> DiffHunk list" where
  "group_hunks changes contextLines =
     (let s = hunk_loop changes contextLines 0 init_gstate;
          s' = (if length (hunkLines s) > 0 then close_hunk changes contextLines s else s)
      in hunks s')"

section \<open>Rendering the report\<close>

text \<open>
  Template literals print a number in decimal. (Beyond \<open>10^21\<close> JavaScript switches to
  exponent notation; no array is that long.)
\<close>

function show_nat :: "nat \<Rightarrow> string" where
  "show_nat n = (if n < 10 then [''0123456789'' ! n] else show_nat (n div 10) @ [''0123456789'' ! (n mod 10)])"
  by pat_completeness auto
termination
  by (relation "measure id") auto

declare show_nat.simps [simp del]

definition show_int :: "int \<Rightarrow> string" where
  "show_int i = (if i < 0 then CHR ''-'' # show_nat (nat (- i)) else show_nat (nat i))"

text \<open>\<^verbatim>\<open>output.join('\n')\<close>\<close>

fun join_nl :: "string list \<Rightarrow> string" where
  "join_nl [] = []"
| "join_nl [x] = x"
| "join_nl (x # y # ys) = x @ CHR 0x0A # join_nl (y # ys)"

text \<open>Line 1163, the header of a hunk.\<close>

definition hunk_header :: "DiffHunk \<Rightarrow> string" where
  "hunk_header hunk =
     ''@@ -'' @ show_int (startA hunk + 1) @ '','' @ show_nat (countA hunk)
       @ '' +'' @ show_int (startB hunk + 1) @ '','' @ show_nat (countB hunk) @ '' @@''"

text \<open>Lines 1154 to 1167.\<close>

definition format_output :: "DiffHunk list \<Rightarrow> string \<Rightarrow> string \<Rightarrow> string" where
  "format_output hs fileA fileB =
     (if length hs = 0 then []
      else join_nl ([''--- '' @ fileA, ''+++ '' @ fileB]
                    @ concat (map (\<lambda>hunk. hunk_header hunk # lines hunk) hs)))"

text \<open>
  The whole function. It is \<open>None\<close> only if the backtracking loop does not return.
\<close>

definition computeUnifiedDiff ::
  "string list \<Rightarrow> string list \<Rightarrow> nat \<Rightarrow> string \<Rightarrow> string \<Rightarrow> string option" where
  "computeUnifiedDiff linesA linesB contextLines fileA fileB =
     (case backtrack linesA linesB of
        None \<Rightarrow> None
      | Some changes \<Rightarrow> Some (format_output (group_hunks changes contextLines) fileA fileB))"

section \<open>Notions used to state the properties\<close>

text \<open>
  Replaying a change list: the texts of its Equal and Delete records in list order, and
  the texts of its Equal and Insert records in list order.
\<close>

definition replayA :: "change list \<Rightarrow> string list" where
  "replayA cs = map ctext (filter (\<lambda>c. ctype c \<in> {Equal, Delete}) cs)"

definition replayB :: "change list \<Rightarrow> string list" where
  "replayB cs = map ctext (filter (\<lambda>c. ctype c \<in> {Equal, Insert}) cs)"

text \<open>
  The length of a longest common subsequence of two lists, by the usual recursion from
  the front. The table of \<^verbatim>\<open>computeLCS\<close> works from the back of the prefixes, so
  \<open>lcs_prefix a b i j\<close> takes the first \<open>i\<close> and the first \<open>j\<close> elements reversed.
\<close>

fun lcs_len :: "'a list \<Rightarrow> 'a list \<Rightarrow> nat" where
  "lcs_len [] ys = 0"
| "lcs_len (x # xs) [] = 0"
| "lcs_len (x # xs) (y # ys) =
     (if x = y then lcs_len xs ys + 1 else max (lcs_len xs (y # ys)) (lcs_len (x # xs) ys))"

definition lcs_prefix :: "'a list \<Rightarrow> 'a list \<Rightarrow> nat \<Rightarrow> nat \<Rightarrow> nat" where
  "lcs_prefix a b i j = lcs_len (rev (take i a)) (rev (take j b))"

text \<open>
  The invariant of the two loops of \<^verbatim>\<open>computeLCS\<close> before the cell \<open>(i, j)\<close> is written:
  the table has its shape, and row 0, column 0 and every cell written so far hold the
  value of \<open>lcs_prefix\<close>.
\<close>

definition lcs_table_inv :: "string list \<Rightarrow> string list \<Rightarrow> nat \<Rightarrow> nat \<Rightarrow> nat list list \<Rightarrow> bool" where
  "lcs_table_inv a b i j dp \<longleftrightarrow>
     length dp = length a + 1 \<and>
     (\<forall>r \<le> length a. length (dp ! r) = length b + 1) \<and>
     (\<forall>r c. r \<le> length a \<longrightarrow> c \<le> length b \<longrightarrow> (r = 0 \<or> c = 0 \<or> r < i \<or> (r = i \<and> c < j)) \<longrightarrow>
        dp ! r ! c = lcs_prefix a b r c)"

text \<open>The number of records of one type in a change list.\<close>

definition count_type :: "change_type \<Rightarrow> change list \<Rightarrow> nat" where
  "count_type t cs = length (filter (\<lambda>c. ctype c = t) cs)"

text \<open>
  The array \<^verbatim>\<open>hunks\<close> that \<^verbatim>\<open>computeUnifiedDiff\<close> has built at line 1154, for two line
  sequences and a context width.
\<close>

definition diff_hunks :: "string list \<Rightarrow> string list \<Rightarrow> nat \<Rightarrow> DiffHunk list option" where
  "diff_hunks linesA linesB contextLines =
     map_option (\<lambda>changes. group_hunks changes contextLines) (backtrack linesA linesB)"

text \<open>
  The line that lines 1094, 1131 and 1134 print for a record: its text behind a blank for
  an Equal record, behind \<open>-\<close> for a Delete record and behind \<open>+\<close> for an Insert record.
\<close>

definition patch_line :: "change \<Rightarrow> string" where
  "patch_line c =
     (case ctype c of Equal \<Rightarrow> CHR '' '' | Delete \<Rightarrow> CHR ''-'' | Insert \<Rightarrow> CHR ''+'') # ctext c"

text \<open>
  A line of a hunk is a context line if it starts with a blank; the changed lines are the
  others. \<open>swap_prefix\<close> exchanges the prefixes \<open>+\<close> and \<open>-\<close> of a line.
\<close>

definition is_context_line :: "string \<Rightarrow> bool" where
  "is_context_line l = (take 1 l = '' '')"

definition changed_lines :: "string list \<Rightarrow> string list" where
  "changed_lines ls = filter (\<lambda>l. \<not> is_context_line l) ls"

definition swap_prefix :: "string \<Rightarrow> string" where
  "swap_prefix l =
     (case l of [] \<Rightarrow> []
      | ch # t \<Rightarrow> (if ch = CHR ''+'' then CHR ''-'' else if ch = CHR ''-'' then CHR ''+'' else ch) # t)"

text \<open>The changed lines of the report of A against B, in the order of the report.\<close>

definition report_changes :: "string list \<Rightarrow> string list \<Rightarrow> nat \<Rightarrow> string list option" where
  "report_changes linesA linesB contextLines =
     map_option (\<lambda>hs. changed_lines (concat (map lines hs))) (diff_hunks linesA linesB contextLines)"

text \<open>
  The hunk loop seen as one pass over the change list, without indices. The pass keeps
  the lines of the closed hunks, the lines of the open hunk (empty before the first
  change) and the Equal records read since the last change. It is a device of the proofs:
  \<open>group_hunks_window\<close> below shows that the loop of lines 1082 to 1152 computes it.
\<close>

type_synonym hunk_acc = "string list list \<times> string list \<times> change list"

fun absorb :: "nat \<Rightarrow> hunk_acc \<Rightarrow> change \<Rightarrow> hunk_acc" where
  "absorb n (H, cur, pend) c =
     (if ctype c = Equal then (H, cur, pend @ [c])
      else if cur = [] then
        (H, map patch_line (drop (length pend - n) pend) @ [patch_line c], [])
      else if length pend > 2 * n then
        (H @ [cur @ map patch_line (take n pend)],
         map patch_line (drop (length pend - n) pend) @ [patch_line c], [])
      else (H, cur @ map patch_line pend @ [patch_line c], []))"

fun finish :: "nat \<Rightarrow> hunk_acc \<Rightarrow> string list list" where
  "finish n (H, cur, pend) = (if cur = [] then H else H @ [cur @ map patch_line (take n pend)])"

definition window_hunks :: "nat \<Rightarrow> change list \<Rightarrow> string list list" where
  "window_hunks n cs = finish n (foldl (absorb n) ([], [], []) cs)"

text \<open>
  The state of the loop before the record \<open>idx\<close> agrees with the state of the pass over
  the first \<open>idx\<close> records.
\<close>

definition coupled :: "change list \<Rightarrow> nat \<Rightarrow> gstate \<Rightarrow> hunk_acc \<Rightarrow> bool" where
  "coupled cs idx s st \<longleftrightarrow>
     (case st of (H, cur, pend) \<Rightarrow>
        map lines (hunks s) = H \<and> hunkLines s = cur \<and> list_all (\<lambda>c. ctype c = Equal) pend
        \<and> idx \<le> length cs
        \<and> (if cur = [] then pend = take idx cs
            else 0 \<le> lastChangeIdx s \<and> nat (lastChangeIdx s) + 1 + length pend = idx
                 \<and> pend = drop (nat (lastChangeIdx s) + 1) (take idx cs)))"

text \<open>The number of lines of a report body that start with a given character.\<close>

definition count_prefix :: "char \<Rightarrow> string list \<Rightarrow> nat" where
  "count_prefix ch ls = length (filter (\<lambda>l. take 1 l = [ch]) ls)"

text \<open>
  The index of the hunk that holds the changed line number \<open>k\<close> of a report, counting the
  changed lines of all hunks from 0 in the order of the report. By \<open>group_hunks_changed\<close>
  below that line is the line of the record number \<open>k\<close> among those that are not Equal.
\<close>

fun hunk_of_change :: "string list list \<Rightarrow> nat \<Rightarrow> nat" where
  "hunk_of_change [] k = 0"
| "hunk_of_change (h # hs) k =
     (if k < length (changed_lines h) then 0
      else 1 + hunk_of_change hs (k - length (changed_lines h)))"

text \<open>
  The context of a hunk: its leading context lines are the context lines before its first
  changed line, its trailing context lines those after its last changed line.
\<close>

definition leading_context :: "string list \<Rightarrow> nat" where
  "leading_context ls = length (takeWhile is_context_line ls)"

definition trailing_context :: "string list \<Rightarrow> nat" where
  "trailing_context ls = length (takeWhile is_context_line (rev ls))"

text \<open>
  A hunk with the lines \<open>ls\<close> is a window of the change list \<open>pre @ le @ body @ te @ post\<close>
  for the context width \<open>n\<close>: \<open>body\<close> runs from the first change of the hunk to its last,
  \<open>le\<close> are all the Equal records immediately before \<open>body\<close>, \<open>te\<close> all the Equal records
  immediately after it, and the hunk prints the last \<open>n\<close> records of \<open>le\<close> (all, if there are
  fewer), \<open>body\<close>, and the first \<open>n\<close> records of \<open>te\<close>.
\<close>

definition hunk_window ::
  "nat \<Rightarrow> change list \<Rightarrow> change list \<Rightarrow> change list \<Rightarrow> change list \<Rightarrow> change list \<Rightarrow> string list \<Rightarrow> bool" where
  "hunk_window n pre le body te post ls \<longleftrightarrow>
     list_all (\<lambda>c. ctype c = Equal) le \<and> (pre = [] \<or> ctype (last pre) \<noteq> Equal)
   \<and> body \<noteq> [] \<and> ctype (hd body) \<noteq> Equal \<and> ctype (last body) \<noteq> Equal
   \<and> list_all (\<lambda>c. ctype c = Equal) te \<and> (post = [] \<or> ctype (hd post) \<noteq> Equal)
   \<and> ls = map patch_line (drop (length le - n) le) @ map patch_line body @ map patch_line (take n te)"

text \<open>
  Invariants of the pass over the list \<open>xs\<close> read so far: every closed hunk is a window of
  \<open>xs\<close> that a record follows, at the position given by the changed lines before it; the
  open hunk is a window without its trailing context yet.
\<close>

definition closed_ok :: "nat \<Rightarrow> change list \<Rightarrow> string list list \<Rightarrow> bool" where
  "closed_ok n xs H \<longleftrightarrow>
     (\<forall>i < length H. \<exists>pre le body te post.
         xs = pre @ le @ body @ te @ post \<and> post \<noteq> [] \<and> hunk_window n pre le body te post (H ! i)
       \<and> length (filter (\<lambda>c. ctype c \<noteq> Equal) pre) = length (changed_lines (concat (take i H))))"

definition open_ok :: "nat \<Rightarrow> change list \<Rightarrow> hunk_acc \<Rightarrow> bool" where
  "open_ok n xs st \<longleftrightarrow>
     (case st of (H, cur, pend) \<Rightarrow>
        list_all (\<lambda>c. ctype c = Equal) pend \<and> closed_ok n xs H
      \<and> (if cur = [] then H = [] \<and> xs = pend
          else \<exists>pre le body. xs = pre @ le @ body @ pend
                 \<and> hunk_window n pre le body [] [] cur
                 \<and> length (filter (\<lambda>c. ctype c \<noteq> Equal) pre) = length (changed_lines (concat H))))"

section \<open>The input schema of the tool \<^verbatim>\<open>cc_diff_files\<close>\<close>

text \<open>
  Lines 2844 to 2848 declare the input schema with the combinators of the validation
  library, and \<^verbatim>\<open>server.registerTool\<close> hands the handler only arguments that the schema
  has parsed. The library and the server framework are not part of this repository; the
  combinators are written here with the meaning their documentation gives them. An
  argument is a JSON value, absent arguments are \<open>JUndefined\<close>, and a JSON number is a
  rational (every finite double is one). A schema is its parse function.
\<close>

datatype json = JUndefined | JNull | JBool bool | JNum rat | JStr string

datatype zod_issue = Invalid_type | Not_integer | Too_small | Too_big

type_synonym 'a zod = "json \<Rightarrow> zod_issue + 'a"

text \<open>\<^verbatim>\<open>z.number()\<close> and \<^verbatim>\<open>z.string()\<close>\<close>

definition z_number :: "rat zod" where
  "z_number v = (case v of JNum x \<Rightarrow> Inr x | _ \<Rightarrow> Inl Invalid_type)"

definition z_string :: "string zod" where
  "z_string v = (case v of JStr s \<Rightarrow> Inr s | _ \<Rightarrow> Inl Invalid_type)"

text \<open>\<^verbatim>\<open>.int()\<close>, \<^verbatim>\<open>.min(m)\<close> and \<^verbatim>\<open>.max(m)\<close> on a number; both bounds are inclusive.\<close>

definition z_int :: "rat zod \<Rightarrow> rat zod" where
  "z_int s v =
     (case s v of Inl e \<Rightarrow> Inl e
      | Inr x \<Rightarrow> if of_int \<lfloor>x\<rfloor> = x then Inr x else Inl Not_integer)"

definition z_min :: "rat \<Rightarrow> rat zod \<Rightarrow> rat zod" where
  "z_min m s v =
     (case s v of Inl e \<Rightarrow> Inl e | Inr x \<Rightarrow> if m \<le> x then Inr x else Inl Too_small)"

definition z_max :: "rat \<Rightarrow> rat zod \<Rightarrow> rat zod" where
  "z_max m s v =
     (case s v of Inl e \<Rightarrow> Inl e | Inr x \<Rightarrow> if x \<le> m then Inr x else Inl Too_big)"

text \<open>\<^verbatim>\<open>.min(n)\<close> on a string: at least \<open>n\<close> characters.\<close>

definition z_min_length :: "nat \<Rightarrow> string zod \<Rightarrow> string zod" where
  "z_min_length n s v =
     (case s v of Inl e \<Rightarrow> Inl e | Inr x \<Rightarrow> if n \<le> length x then Inr x else Inl Too_small)"

text \<open>\<^verbatim>\<open>.default(d)\<close>: an absent value parses to \<open>d\<close>.\<close>

definition z_default :: "'a \<Rightarrow> 'a zod \<Rightarrow> 'a zod" where
  "z_default d s v = (if v = JUndefined then Inr d else s v)"

text \<open>The arguments of a call as they arrive, and as the handler receives them.\<close>

record diff_args =
  arg_file_a :: json
  arg_file_b :: json
  arg_context_lines :: json

record diff_params =
  file_a :: string
  file_b :: string
  context_lines :: rat

text \<open>The \<^verbatim>\<open>inputSchema\<close> of lines 2844 to 2848.\<close>

definition cc_diff_files_inputSchema :: "diff_args \<Rightarrow> zod_issue + diff_params" where
  "cc_diff_files_inputSchema args =
     (case z_min_length 1 z_string (arg_file_a args) of
        Inl e \<Rightarrow> Inl e
      | Inr a \<Rightarrow>
          (case z_min_length 1 z_string (arg_file_b args) of
             Inl e \<Rightarrow> Inl e
           | Inr b \<Rightarrow>
               (case z_default 3 (z_max 20 (z_min 0 (z_int z_number))) (arg_context_lines args) of
                  Inl e \<Rightarrow> Inl e
                | Inr k \<Rightarrow> Inr \<lparr>file_a = a, file_b = b, context_lines = k\<rparr>)))"

text \<open>
  A registered tool: the server parses the arguments with the schema and calls the
  handler with the parsed value, or answers with the error and does not call it. The
  handler of lines 2851 to 2899 reads files and calls the diff engine; it is a parameter.
\<close>

definition registerTool :: "('a \<Rightarrow> zod_issue + 'p) \<Rightarrow> ('p \<Rightarrow> 'r) \<Rightarrow> 'a \<Rightarrow> zod_issue + 'r" where
  "registerTool inputSchema handler args =
     (case inputSchema args of Inl e \<Rightarrow> Inl e | Inr params \<Rightarrow> Inr (handler params))"

definition cc_diff_files :: "(diff_params \<Rightarrow> 'r) \<Rightarrow> diff_args \<Rightarrow> zod_issue + 'r" where
  "cc_diff_files handler = registerTool cc_diff_files_inputSchema handler"

section \<open>The backtracking loop\<close>

text \<open>
  A proof rule for the loop. A property \<open>Q i j ext\<close> of the records \<open>ext\<close> pushed from the
  state \<open>(i, j)\<close> on holds for the run if it holds at \<open>(0, 0)\<close> and each of the three
  branches extends it. The loop returns: the induction is on \<open>i + j\<close>, which every
  branch decreases.
\<close>

lemma backtrack_loop_rule:
  assumes base: "Q 0 0 []"
    and eq: "\<And>i j ext. 0 < i \<Longrightarrow> 0 < j \<Longrightarrow> i \<le> length a \<Longrightarrow> j \<le> length b \<Longrightarrow>
               a ! (i - 1) = b ! (j - 1) \<Longrightarrow> Q (i - 1) (j - 1) ext \<Longrightarrow>
               Q i j (\<lparr>ctype = Equal, lineA = Some (i - 1), lineB = Some (j - 1), ctext = a ! (i - 1)\<rparr> # ext)"
    and ins: "\<And>i j ext. 0 < j \<Longrightarrow> i \<le> length a \<Longrightarrow> j \<le> length b \<Longrightarrow>
               (0 < i \<Longrightarrow> a ! (i - 1) \<noteq> b ! (j - 1)) \<Longrightarrow>
               (0 < i \<Longrightarrow> dp ! (i - 1) ! j \<le> dp ! i ! (j - 1)) \<Longrightarrow> Q i (j - 1) ext \<Longrightarrow>
               Q i j (\<lparr>ctype = Insert, lineA = None, lineB = Some (j - 1), ctext = b ! (j - 1)\<rparr> # ext)"
    and del: "\<And>i j ext. 0 < i \<Longrightarrow> i \<le> length a \<Longrightarrow> j \<le> length b \<Longrightarrow>
               (0 < j \<Longrightarrow> a ! (i - 1) \<noteq> b ! (j - 1)) \<Longrightarrow>
               (0 < j \<Longrightarrow> dp ! i ! (j - 1) < dp ! (i - 1) ! j) \<Longrightarrow> Q (i - 1) j ext \<Longrightarrow>
               Q i j (\<lparr>ctype = Delete, lineA = Some (i - 1), lineB = None, ctext = a ! (i - 1)\<rparr> # ext)"
    and bounds: "i \<le> length a" "j \<le> length b"
  shows "\<exists>ext. backtrack_loop a b dp i j bt = Some (bt @ ext) \<and> Q i j ext"
  using bounds
proof (induction "i + j" arbitrary: i j bt rule: less_induct)
  case less
  show ?case
  proof (cases "i > 0 \<or> j > 0")
    case False
    then show ?thesis using base by (subst backtrack_loop.simps) simp
  next
    case pos: True
    show ?thesis
    proof (cases "i > 0 \<and> j > 0 \<and> a ! (i - 1) = b ! (j - 1)")
      case True
      let ?c = "\<lparr>ctype = Equal, lineA = Some (i - 1), lineB = Some (j - 1), ctext = a ! (i - 1)\<rparr>"
      from True less.prems have "(i - 1) + (j - 1) < i + j" "i - 1 \<le> length a" "j - 1 \<le> length b"
        by simp_all
      from less.hyps[OF this, of "bt @ [?c]"]
      obtain ext where e: "backtrack_loop a b dp (i - 1) (j - 1) (bt @ [?c]) = Some ((bt @ [?c]) @ ext)"
        and q: "Q (i - 1) (j - 1) ext" by blast
      have "Q i j (?c # ext)" using eq True less.prems q by blast
      moreover have "backtrack_loop a b dp i j bt = Some (bt @ ?c # ext)"
        using True e by (subst backtrack_loop.simps) simp
      ultimately show ?thesis by blast
    next
      case neq: False
      show ?thesis
      proof (cases "j > 0 \<and> (i = 0 \<or> dp ! i ! (j - 1) \<ge> dp ! (i - 1) ! j)")
        case True
        let ?c = "\<lparr>ctype = Insert, lineA = None, lineB = Some (j - 1), ctext = b ! (j - 1)\<rparr>"
        from True less.prems have "i + (j - 1) < i + j" "i \<le> length a" "j - 1 \<le> length b"
          by simp_all
        from less.hyps[OF this, of "bt @ [?c]"]
        obtain ext where e: "backtrack_loop a b dp i (j - 1) (bt @ [?c]) = Some ((bt @ [?c]) @ ext)"
          and q: "Q i (j - 1) ext" by blast
        have "Q i j (?c # ext)" using ins[of j i ext] True neq less.prems q by auto
        moreover have "backtrack_loop a b dp i j bt = Some (bt @ ?c # ext)"
          using True neq e by (subst backtrack_loop.simps) auto
        ultimately show ?thesis by blast
      next
        case False
        let ?c = "\<lparr>ctype = Delete, lineA = Some (i - 1), lineB = None, ctext = a ! (i - 1)\<rparr>"
        from False pos have ipos: "i > 0" by auto
        with less.prems have "(i - 1) + j < i + j" "i - 1 \<le> length a" "j \<le> length b"
          by simp_all
        from less.hyps[OF this, of "bt @ [?c]"]
        obtain ext where e: "backtrack_loop a b dp (i - 1) j (bt @ [?c]) = Some ((bt @ [?c]) @ ext)"
          and q: "Q (i - 1) j ext" by blast
        have "Q i j (?c # ext)" using del[of i j ext] False neq ipos less.prems q by auto
        moreover have "backtrack_loop a b dp i j bt = Some (bt @ ?c # ext)"
          using False neq pos e by (subst backtrack_loop.simps) auto
        ultimately show ?thesis by blast
      qed
    qed
  qed
qed

lemma backtrack_rule:
  assumes base: "Q 0 0 []"
    and eq: "\<And>i j ext. 0 < i \<Longrightarrow> 0 < j \<Longrightarrow> i \<le> length a \<Longrightarrow> j \<le> length b \<Longrightarrow>
               a ! (i - 1) = b ! (j - 1) \<Longrightarrow> Q (i - 1) (j - 1) ext \<Longrightarrow>
               Q i j (\<lparr>ctype = Equal, lineA = Some (i - 1), lineB = Some (j - 1), ctext = a ! (i - 1)\<rparr> # ext)"
    and ins: "\<And>i j ext. 0 < j \<Longrightarrow> i \<le> length a \<Longrightarrow> j \<le> length b \<Longrightarrow>
               (0 < i \<Longrightarrow> a ! (i - 1) \<noteq> b ! (j - 1)) \<Longrightarrow>
               (0 < i \<Longrightarrow> computeLCS a b ! (i - 1) ! j \<le> computeLCS a b ! i ! (j - 1)) \<Longrightarrow> Q i (j - 1) ext \<Longrightarrow>
               Q i j (\<lparr>ctype = Insert, lineA = None, lineB = Some (j - 1), ctext = b ! (j - 1)\<rparr> # ext)"
    and del: "\<And>i j ext. 0 < i \<Longrightarrow> i \<le> length a \<Longrightarrow> j \<le> length b \<Longrightarrow>
               (0 < j \<Longrightarrow> a ! (i - 1) \<noteq> b ! (j - 1)) \<Longrightarrow>
               (0 < j \<Longrightarrow> computeLCS a b ! i ! (j - 1) < computeLCS a b ! (i - 1) ! j) \<Longrightarrow> Q (i - 1) j ext \<Longrightarrow>
               Q i j (\<lparr>ctype = Delete, lineA = Some (i - 1), lineB = None, ctext = a ! (i - 1)\<rparr> # ext)"
  shows "\<exists>ext. backtrack a b = Some (rev ext) \<and> Q (length a) (length b) ext"
proof -
  have "\<exists>ext. backtrack_loop a b (computeLCS a b) (length a) (length b) [] = Some ([] @ ext)
          \<and> Q (length a) (length b) ext"
    by (rule backtrack_loop_rule[where Q = Q, OF base eq ins del]) simp_all
  then show ?thesis by (auto simp: backtrack_def)
qed

lemma take_snoc_nth: "0 < i \<Longrightarrow> i \<le> length xs \<Longrightarrow> take i xs = take (i - 1) xs @ [xs ! (i - 1)]"
  by (cases i) (simp_all add: take_Suc_conv_app_nth)

lemma backtrack_replay:
  "\<exists>changes. backtrack a b = Some changes \<and> replayA changes = a \<and> replayB changes = b"
proof -
  have "\<exists>ext. backtrack a b = Some (rev ext)
      \<and> (replayA (rev ext) = take (length a) a \<and> replayB (rev ext) = take (length b) b)"
    by (rule backtrack_rule[where Q = "\<lambda>i j ext. replayA (rev ext) = take i a \<and> replayB (rev ext) = take j b"])
       (simp_all add: replayA_def replayB_def take_snoc_nth)
  then show ?thesis by auto
qed


text \<open>
  C1. For all line sequences A and B the backtracking phase returns a change list; the
  texts of its Equal and Delete records, in list order, are exactly A, and the texts of
  its Equal and Insert records, in list order, are exactly B.
\<close>

theorem C1_reconstruction:
  "\<exists>changes. backtrack A B = Some changes \<and> replayA changes = A \<and> replayB changes = B"
  by (rule backtrack_replay)

lemma backtrack_length:
  "\<exists>changes. backtrack a b = Some changes \<and> length changes \<le> length a + length b"
proof -
  have "\<exists>ext. backtrack a b = Some (rev ext) \<and> length ext \<le> length a + length b"
    by (rule backtrack_rule[where Q = "\<lambda>i j ext. length ext \<le> i + j"]) simp_all
  then show ?thesis by auto
qed

text \<open>
  C9. For all finite line sequences A and B (the empty ones too), every context width and
  all labels, \<^verbatim>\<open>computeUnifiedDiff\<close> returns a string. The backtracking loop decreases
  \<open>i + j\<close> in every iteration (that is the induction of \<open>backtrack_loop_rule\<close>) and pushes
  one record in each, so it runs at most \<open>length A + length B\<close> times; the other loops
  are bounded counting loops, defined with their measures.
\<close>

theorem C9_total:
  "\<exists>changes report. backtrack A B = Some changes \<and> length changes \<le> length A + length B
      \<and> computeUnifiedDiff A B contextLines fileA fileB = Some report"
  using backtrack_length[of A B] by (auto simp: computeUnifiedDiff_def)

lemma backtrack_loop_returns:
  "i \<le> length a \<Longrightarrow> j \<le> length b \<Longrightarrow> \<exists>ext. backtrack_loop a b dp i j bt = Some (bt @ ext)"
  using backtrack_loop_rule[where Q = "\<lambda>i j ext. True" and a = a and b = b and i = i and j = j]
  by simp

text \<open>
  C6. In the backtracking loop at a state with \<open>i > 0\<close> and \<open>j > 0\<close>: if
  \<open>A[i-1]\<close> equals \<open>B[j-1]\<close> the record pushed is an Equal record; if the lines differ and
  \<open>dp[i][j-1]\<close> equals \<open>dp[i-1][j]\<close> the record pushed is an Insert record (of \<open>B[j-1]\<close>),
  not a Delete. This holds for every table \<open>dp\<close>.
\<close>

theorem C6_tie_break:
  assumes "0 < i" "i \<le> length A" "0 < j" "j \<le> length B"
  shows "(A ! (i - 1) = B ! (j - 1) \<longrightarrow>
           (\<exists>ext. backtrack_loop A B dp i j bt =
              Some (bt @ \<lparr>ctype = Equal, lineA = Some (i - 1), lineB = Some (j - 1), ctext = A ! (i - 1)\<rparr> # ext)))
       \<and> (A ! (i - 1) \<noteq> B ! (j - 1) \<and> dp ! i ! (j - 1) = dp ! (i - 1) ! j \<longrightarrow>
           (\<exists>ext. backtrack_loop A B dp i j bt =
              Some (bt @ \<lparr>ctype = Insert, lineA = None, lineB = Some (j - 1), ctext = B ! (j - 1)\<rparr> # ext)))"
proof (intro conjI impI)
  assume eq: "A ! (i - 1) = B ! (j - 1)"
  let ?c = "\<lparr>ctype = Equal, lineA = Some (i - 1), lineB = Some (j - 1), ctext = A ! (i - 1)\<rparr>"
  have "i - 1 \<le> length A" "j - 1 \<le> length B" using assms by simp_all
  from backtrack_loop_returns[OF this, of dp "bt @ [?c]"] obtain ext where
    "backtrack_loop A B dp (i - 1) (j - 1) (bt @ [?c]) = Some ((bt @ [?c]) @ ext)"
    by blast
  moreover have "backtrack_loop A B dp i j bt = backtrack_loop A B dp (i - 1) (j - 1) (bt @ [?c])"
    using assms eq by (subst backtrack_loop.simps) simp
  ultimately show "\<exists>ext. backtrack_loop A B dp i j bt = Some (bt @ ?c # ext)" by simp
next
  assume tie: "A ! (i - 1) \<noteq> B ! (j - 1) \<and> dp ! i ! (j - 1) = dp ! (i - 1) ! j"
  let ?c = "\<lparr>ctype = Insert, lineA = None, lineB = Some (j - 1), ctext = B ! (j - 1)\<rparr>"
  have "i \<le> length A" "j - 1 \<le> length B" using assms by simp_all
  from backtrack_loop_returns[OF this, of dp "bt @ [?c]"] obtain ext where
    "backtrack_loop A B dp i (j - 1) (bt @ [?c]) = Some ((bt @ [?c]) @ ext)"
    by blast
  moreover have "backtrack_loop A B dp i j bt = backtrack_loop A B dp i (j - 1) (bt @ [?c])"
    using assms tie by (subst backtrack_loop.simps) simp
  ultimately show "\<exists>ext. backtrack_loop A B dp i j bt = Some (bt @ ?c # ext)" by simp
qed

lemma computeLCS_xy: "computeLCS [''x'', ''y''] [''y'', ''x''] = [[0, 0, 0], [0, 0, 1], [0, 1, 1]]"
  by code_simp

theorem C6_tie_break_witness:
  "(0::nat) < 2 \<and> 2 \<le> length [''x'', ''y''] \<and> 2 \<le> length [''y'', ''x'']
   \<and> [''x'', ''y''] ! (2 - 1) \<noteq> [''y'', ''x''] ! (2 - 1)
   \<and> computeLCS [''x'', ''y''] [''y'', ''x''] ! 2 ! (2 - 1) = computeLCS [''x'', ''y''] [''y'', ''x''] ! (2 - 1) ! 2
   \<and> (\<exists>ext. backtrack_loop [''x'', ''y''] [''y'', ''x''] (computeLCS [''x'', ''y''] [''y'', ''x'']) 2 2 [] =
        Some ([] @ \<lparr>ctype = Insert, lineA = None, lineB = Some (2 - 1), ctext = [''y'', ''x''] ! (2 - 1)\<rparr> # ext))
   \<and> [''x'', ''y''] ! (1 - 1) = [''y'', ''x''] ! (2 - 1)
   \<and> (\<exists>ext. backtrack_loop [''x'', ''y''] [''y'', ''x''] (computeLCS [''x'', ''y''] [''y'', ''x'']) 1 2 [] =
        Some ([] @ \<lparr>ctype = Equal, lineA = Some (1 - 1), lineB = Some (2 - 1), ctext = [''x'', ''y''] ! (1 - 1)\<rparr> # ext))"
  using C6_tie_break[of 2 "[''x'', ''y'']" 2 "[''y'', ''x'']" "computeLCS [''x'', ''y''] [''y'', ''x'']" "[]"]
        C6_tie_break[of 1 "[''x'', ''y'']" 2 "[''y'', ''x'']" "computeLCS [''x'', ''y''] [''y'', ''x'']" "[]"]
  by (simp add: computeLCS_xy)

section \<open>The report is empty exactly for identical inputs\<close>

text \<open>An invariant rule for the loop over \<^verbatim>\<open>idx\<close>.\<close>

lemma hunk_loop_invariant:
  assumes "P idx s"
    and "\<And>k t. idx \<le> k \<Longrightarrow> k < length changes \<Longrightarrow> P k t \<Longrightarrow> P (k + 1) (hunk_step changes contextLines k t)"
    and "idx \<le> length changes"
  shows "P (length changes) (hunk_loop changes contextLines idx s)"
  using assms
proof (induction changes contextLines idx s rule: hunk_loop.induct)
  case (1 changes contextLines idx s)
  show ?case
  proof (cases "idx < length changes")
    case True
    have "P (length changes) (hunk_loop changes contextLines (idx + 1) (hunk_step changes contextLines idx s))"
    proof (rule "1.IH"[OF True])
      show "P (idx + 1) (hunk_step changes contextLines idx s)"
        using "1.prems"(1,2) True by simp
      show "\<And>k t. idx + 1 \<le> k \<Longrightarrow> k < length changes \<Longrightarrow> P k t \<Longrightarrow> P (k + 1) (hunk_step changes contextLines k t)"
        using "1.prems"(2) by simp
      show "idx + 1 \<le> length changes" using True by simp
    qed
    then show ?thesis using True by (subst hunk_loop.simps) simp
  next
    case False
    with "1.prems" show ?thesis by (subst hunk_loop.simps) simp
  qed
qed

lemma hunk_step_equal: "ctype (changes ! idx) = Equal \<Longrightarrow> hunk_step changes contextLines idx s = s"
  by (simp add: hunk_step_def)

lemma hunk_step_lines_nonempty:
  "ctype (changes ! idx) \<noteq> Equal \<Longrightarrow> hunkLines (hunk_step changes contextLines idx s) \<noteq> []"
  by (simp add: hunk_step_def Let_def split: prod.splits)

lemma hunks_close_hunk: "hunks (close_hunk changes contextLines s) \<noteq> []"
  by (simp add: close_hunk_def Let_def)

lemma group_hunks_empty_iff:
  "group_hunks changes contextLines = [] \<longleftrightarrow> list_all (\<lambda>c. ctype c = Equal) changes"
proof -
  let ?P = "\<lambda>k s. (if list_all (\<lambda>c. ctype c = Equal) (take k changes) then s = init_gstate else hunkLines s \<noteq> [])"
  have "?P (length changes) (hunk_loop changes contextLines 0 init_gstate)"
  proof (rule hunk_loop_invariant[where P = ?P])
    show "?P 0 init_gstate" by simp
  next
    fix k t assume k: "k < length changes" and p: "?P k t"
    show "?P (k + 1) (hunk_step changes contextLines k t)"
    proof (cases "ctype (changes ! k) = Equal")
      case True
      then show ?thesis using p k by (simp add: hunk_step_equal take_Suc_conv_app_nth)
    next
      case False
      then show ?thesis using k by (simp add: hunk_step_lines_nonempty take_Suc_conv_app_nth)
    qed
  qed simp
  then have fin: "if list_all (\<lambda>c. ctype c = Equal) changes
      then hunk_loop changes contextLines 0 init_gstate = init_gstate
      else hunkLines (hunk_loop changes contextLines 0 init_gstate) \<noteq> []"
    by simp
  show ?thesis
  proof (cases "list_all (\<lambda>c. ctype c = Equal) changes")
    case True
    with fin have "hunk_loop changes contextLines 0 init_gstate = init_gstate" by simp
    then show ?thesis using True by (simp add: group_hunks_def init_gstate_def)
  next
    case False
    with fin have "hunkLines (hunk_loop changes contextLines 0 init_gstate) \<noteq> []" by simp
    then show ?thesis using False by (simp add: group_hunks_def Let_def hunks_close_hunk)
  qed
qed

lemma join_nl_nonempty: "x \<noteq> [] \<Longrightarrow> join_nl (x # xs) \<noteq> []"
  by (cases xs) simp_all

lemma format_output_empty_iff: "format_output hs fileA fileB = [] \<longleftrightarrow> hs = []"
  by (simp add: format_output_def join_nl_nonempty)

lemma backtrack_same_all_equal:
  "\<exists>changes. backtrack a a = Some changes \<and> list_all (\<lambda>c. ctype c = Equal) changes"
proof -
  have "\<exists>ext. backtrack a a = Some (rev ext) \<and> (length a = length a \<longrightarrow> list_all (\<lambda>c. ctype c = Equal) ext)"
    by (rule backtrack_rule[where Q = "\<lambda>i j ext. i = j \<longrightarrow> list_all (\<lambda>c. ctype c = Equal) ext"]) auto
  then show ?thesis by auto
qed

lemma all_equal_replay:
  "list_all (\<lambda>c. ctype c = Equal) cs \<Longrightarrow> replayA cs = replayB cs"
  by (induction cs) (simp_all add: replayA_def replayB_def)

lemma backtrack_all_equal_iff:
  "\<exists>changes. backtrack a b = Some changes \<and> (list_all (\<lambda>c. ctype c = Equal) changes \<longleftrightarrow> a = b)"
proof -
  obtain cs where cs: "backtrack a b = Some cs" "replayA cs = a" "replayB cs = b"
    using backtrack_replay[of a b] by blast
  show ?thesis
  proof (cases "a = b")
    case True
    then show ?thesis using backtrack_same_all_equal[of a] by auto
  next
    case False
    then have "\<not> list_all (\<lambda>c. ctype c = Equal) cs"
      using all_equal_replay[of cs] cs by auto
    then show ?thesis using cs False by simp
  qed
qed

text \<open>
  C3. For all line sequences A and B, every context width and all labels,
  \<^verbatim>\<open>computeUnifiedDiff\<close> returns the empty string if and only if A and B are the same
  sequence; in particular the report of A against itself is empty.
\<close>

theorem C3_empty_iff_identical:
  "(computeUnifiedDiff A B contextLines labelA labelB = Some [] \<longleftrightarrow> A = B)
   \<and> computeUnifiedDiff A A contextLines labelA labelB = Some []"
  using backtrack_all_equal_iff[of A B] backtrack_all_equal_iff[of A A]
  by (auto simp: computeUnifiedDiff_def format_output_empty_iff group_hunks_empty_iff)

section \<open>The table of \<^verbatim>\<open>computeLCS\<close> and the minimal number of changes\<close>

lemma lcs_len_Nil2 [simp]: "lcs_len xs [] = 0"
  by (cases xs) simp_all

lemma lcs_prefix_0 [simp]: "lcs_prefix a b 0 j = 0" "lcs_prefix a b i 0 = 0"
  by (simp_all add: lcs_prefix_def)

lemma lcs_prefix_step:
  assumes "0 < i" "i \<le> length a" "0 < j" "j \<le> length b"
  shows "lcs_prefix a b i j =
     (if a ! (i - 1) = b ! (j - 1) then lcs_prefix a b (i - 1) (j - 1) + 1
      else max (lcs_prefix a b (i - 1) j) (lcs_prefix a b i (j - 1)))"
proof -
  have a: "rev (take i a) = a ! (i - 1) # rev (take (i - 1) a)"
    using assms by (simp add: take_snoc_nth)
  have b: "rev (take j b) = b ! (j - 1) # rev (take (j - 1) b)"
    using assms by (simp add: take_snoc_nth)
  show ?thesis
    unfolding lcs_prefix_def by (simp add: a b)
qed

lemma lcs_table_inv_len: "lcs_table_inv a b i j dp \<Longrightarrow> length dp = length a + 1"
  unfolding lcs_table_inv_def by blast

lemma lcs_table_inv_row: "lcs_table_inv a b i j dp \<Longrightarrow> r \<le> length a \<Longrightarrow> length (dp ! r) = length b + 1"
  unfolding lcs_table_inv_def by blast

lemma lcs_table_inv_val:
  "lcs_table_inv a b i j dp \<Longrightarrow> r \<le> length a \<Longrightarrow> c \<le> length b \<Longrightarrow>
   r = 0 \<or> c = 0 \<or> r < i \<or> (r = i \<and> c < j) \<Longrightarrow> dp ! r ! c = lcs_prefix a b r c"
  unfolding lcs_table_inv_def by blast

lemma lcs_table_invI:
  assumes "length dp = length a + 1"
    and "\<And>r. r \<le> length a \<Longrightarrow> length (dp ! r) = length b + 1"
    and "\<And>r c. r \<le> length a \<Longrightarrow> c \<le> length b \<Longrightarrow> r = 0 \<or> c = 0 \<or> r < i \<or> (r = i \<and> c < j) \<Longrightarrow>
           dp ! r ! c = lcs_prefix a b r c"
  shows "lcs_table_inv a b i j dp"
  unfolding lcs_table_inv_def using assms by blast

lemma lcs_cell_inv:
  assumes inv: "lcs_table_inv a b i j dp" and i: "0 < i" "i \<le> length a" and j: "0 < j" "j \<le> length b"
  shows "lcs_table_inv a b i (j + 1) (lcs_cell a b dp i j)"
proof -
  note len = lcs_table_inv_len[OF inv] and rows = lcs_table_inv_row[OF inv]
    and val = lcs_table_inv_val[OF inv]
  define v where "v = (if a ! (i - 1) = b ! (j - 1) then dp ! (i - 1) ! (j - 1) + 1
      else max (dp ! (i - 1) ! j) (dp ! i ! (j - 1)))"
  have cell: "lcs_cell a b dp i j = dp[i := (dp ! i)[j := v]]"
    by (simp add: lcs_cell_def v_def)
  have "dp ! (i - 1) ! (j - 1) = lcs_prefix a b (i - 1) (j - 1)"
       "dp ! (i - 1) ! j = lcs_prefix a b (i - 1) j"
       "dp ! i ! (j - 1) = lcs_prefix a b i (j - 1)"
    using i j by (auto intro!: val)
  then have v: "v = lcs_prefix a b i j"
    using lcs_prefix_step[OF i j] by (simp add: v_def)
  have ilt: "i < length dp" using i len by simp
  have jlt: "j < length (dp ! i)" using rows[of i] i j by simp
  show ?thesis
    unfolding cell
  proof (rule lcs_table_invI)
    show "length (dp[i := (dp ! i)[j := v]]) = length a + 1" using len by simp
  next
    fix r assume "r \<le> length a"
    then show "length (dp[i := (dp ! i)[j := v]] ! r) = length b + 1"
      using rows[of r] ilt by (cases "r = i") simp_all
  next
    fix r c assume r: "r \<le> length a" and c: "c \<le> length b"
      and f: "r = 0 \<or> c = 0 \<or> r < i \<or> (r = i \<and> c < j + 1)"
    show "dp[i := (dp ! i)[j := v]] ! r ! c = lcs_prefix a b r c"
    proof (cases "r = i \<and> c = j")
      case True
      then show ?thesis using ilt jlt v by simp
    next
      case False
      then have "dp[i := (dp ! i)[j := v]] ! r ! c = dp ! r ! c"
        using ilt by (cases "r = i") auto
      moreover have "dp ! r ! c = lcs_prefix a b r c"
        using False f r c by (intro val) auto
      ultimately show ?thesis by simp
    qed
  qed
qed

lemma lcs_inner_inv:
  "lcs_table_inv a b i j dp \<Longrightarrow> 0 < i \<Longrightarrow> i \<le> length a \<Longrightarrow> 0 < j \<Longrightarrow> j \<le> length b + 1 \<Longrightarrow>
   lcs_table_inv a b i (length b + 1) (lcs_inner a b i j dp)"
proof (induction a b i j dp rule: lcs_inner.induct)
  case (1 a b i j dp)
  show ?case
  proof (cases "j \<le> length b")
    case True
    have "lcs_table_inv a b i (j + 1) (lcs_cell a b dp i j)"
      using lcs_cell_inv "1.prems" True by simp
    from "1.IH"[OF True this] "1.prems" True show ?thesis
      by (subst lcs_inner.simps) simp
  next
    case False
    with "1.prems" have "j = length b + 1" by simp
    with "1.prems" False show ?thesis by (subst lcs_inner.simps) simp
  qed
qed

lemma lcs_table_inv_next_row:
  assumes inv: "lcs_table_inv a b i (length b + 1) dp"
  shows "lcs_table_inv a b (i + 1) 1 dp"
proof (rule lcs_table_invI)
  show "length dp = length a + 1" by (rule lcs_table_inv_len[OF inv])
next
  fix r assume "r \<le> length a"
  then show "length (dp ! r) = length b + 1" by (rule lcs_table_inv_row[OF inv])
next
  fix r c assume r: "r \<le> length a" and c: "c \<le> length b"
    and f: "r = 0 \<or> c = 0 \<or> r < i + 1 \<or> (r = i + 1 \<and> c < 1)"
  then have "r = 0 \<or> c = 0 \<or> r < i \<or> (r = i \<and> c < length b + 1)" by auto
  then show "dp ! r ! c = lcs_prefix a b r c" by (rule lcs_table_inv_val[OF inv r c])
qed

lemma lcs_outer_inv:
  "lcs_table_inv a b i 1 dp \<Longrightarrow> 0 < i \<Longrightarrow> i \<le> length a + 1 \<Longrightarrow>
   lcs_table_inv a b (length a + 1) 1 (lcs_outer a b i dp)"
proof (induction a b i dp rule: lcs_outer.induct)
  case (1 a b i dp)
  show ?case
  proof (cases "i \<le> length a")
    case True
    have "lcs_table_inv a b i (length b + 1) (lcs_inner a b i 1 dp)"
      using lcs_inner_inv[of a b i 1 dp] "1.prems" True by simp
    then have "lcs_table_inv a b (i + 1) 1 (lcs_inner a b i 1 dp)"
      by (rule lcs_table_inv_next_row)
    from "1.IH"[OF True this] True show ?thesis
      by (subst lcs_outer.simps) simp
  next
    case False
    with "1.prems" have "i = length a + 1" by simp
    with "1.prems" False show ?thesis by (subst lcs_outer.simps) simp
  qed
qed

lemma computeLCS_table:
  assumes "i \<le> length a" "j \<le> length b"
  shows "computeLCS a b ! i ! j = lcs_prefix a b i j"
proof -
  have "lcs_table_inv a b 1 1 (replicate (length a + 1) (replicate (length b + 1) 0))"
  proof (rule lcs_table_invI)
    fix r c assume "r \<le> length a" "c \<le> length b" and "r = 0 \<or> c = 0 \<or> r < 1 \<or> (r = 1 \<and> c < 1)"
    then have z: "r = 0 \<or> c = 0" and "r < length a + 1" "c < length b + 1" by auto
    then have "replicate (length a + 1) (replicate (length b + 1) (0::nat)) ! r ! c = 0"
      by (simp only: nth_replicate)
    then show "replicate (length a + 1) (replicate (length b + 1) 0) ! r ! c = lcs_prefix a b r c"
      using z by auto
  next
    fix r assume "r \<le> length a"
    then have "r < length a + 1" by simp
    then show "length (replicate (length a + 1) (replicate (length b + 1) (0::nat)) ! r) = length b + 1"
      by (simp only: nth_replicate length_replicate)
  qed simp
  then have "lcs_table_inv a b (length a + 1) 1 (computeLCS a b)"
    unfolding computeLCS_def Let_def by (rule lcs_outer_inv) simp_all
  then show ?thesis using assms by (auto simp: lcs_table_inv_def)
qed

lemma computeLCS_final: "computeLCS a b ! length a ! length b = lcs_len (rev a) (rev b)"
  by (simp add: computeLCS_table lcs_prefix_def)

lemma count_type_Nil [simp]: "count_type t [] = 0"
  by (simp add: count_type_def)

lemma count_type_Cons [simp]: "count_type t (c # cs) = (if ctype c = t then 1 else 0) + count_type t cs"
  by (simp add: count_type_def)

lemma count_type_append [simp]: "count_type t (xs @ ys) = count_type t xs + count_type t ys"
  by (simp add: count_type_def)

lemma count_type_rev [simp]: "count_type t (rev cs) = count_type t cs"
  by (induction cs) simp_all

lemma length_replayA: "length (replayA cs) = count_type Equal cs + count_type Delete cs"
  by (induction cs) (simp_all add: replayA_def)

lemma length_replayB: "length (replayB cs) = count_type Equal cs + count_type Insert cs"
  by (induction cs) (simp_all add: replayB_def)

lemma backtrack_equal_count:
  "\<exists>changes. backtrack a b = Some changes \<and> replayA changes = a \<and> replayB changes = b
      \<and> count_type Equal changes = computeLCS a b ! length a ! length b"
proof -
  let ?Q = "\<lambda>i j ext. replayA (rev ext) = take i a \<and> replayB (rev ext) = take j b
              \<and> count_type Equal ext = lcs_prefix a b i j"
  have "\<exists>ext. backtrack a b = Some (rev ext) \<and> ?Q (length a) (length b) ext"
  proof (rule backtrack_rule[where Q = ?Q])
    show "?Q 0 0 []" by (simp add: replayA_def replayB_def)
  next
    fix i j ext
    assume "0 < i" "0 < j" "i \<le> length a" "j \<le> length b" "a ! (i - 1) = b ! (j - 1)"
      "?Q (i - 1) (j - 1) ext"
    then show "?Q i j (\<lparr>ctype = Equal, lineA = Some (i - 1), lineB = Some (j - 1), ctext = a ! (i - 1)\<rparr> # ext)"
      by (simp add: replayA_def replayB_def take_snoc_nth lcs_prefix_step)
  next
    fix i j ext
    assume j: "0 < j" "j \<le> length b" and i: "i \<le> length a"
      and ne: "0 < i \<Longrightarrow> a ! (i - 1) \<noteq> b ! (j - 1)"
      and le: "0 < i \<Longrightarrow> computeLCS a b ! (i - 1) ! j \<le> computeLCS a b ! i ! (j - 1)"
      and q: "?Q i (j - 1) ext"
    have "lcs_prefix a b i j = lcs_prefix a b i (j - 1)"
    proof (cases "0 < i")
      case True
      have "lcs_prefix a b (i - 1) j \<le> lcs_prefix a b i (j - 1)"
        using le[OF True] i j by (simp add: computeLCS_table)
      then show ?thesis using lcs_prefix_step[OF True i j] ne[OF True] by simp
    qed simp
    then show "?Q i j (\<lparr>ctype = Insert, lineA = None, lineB = Some (j - 1), ctext = b ! (j - 1)\<rparr> # ext)"
      using q j by (simp add: replayA_def replayB_def take_snoc_nth)
  next
    fix i j ext
    assume i: "0 < i" "i \<le> length a" and j: "j \<le> length b"
      and ne: "0 < j \<Longrightarrow> a ! (i - 1) \<noteq> b ! (j - 1)"
      and lt: "0 < j \<Longrightarrow> computeLCS a b ! i ! (j - 1) < computeLCS a b ! (i - 1) ! j"
      and q: "?Q (i - 1) j ext"
    have "lcs_prefix a b i j = lcs_prefix a b (i - 1) j"
    proof (cases "0 < j")
      case True
      have "lcs_prefix a b i (j - 1) < lcs_prefix a b (i - 1) j"
        using lt[OF True] i j by (simp add: computeLCS_table)
      then show ?thesis using lcs_prefix_step[OF i True j] ne[OF True] by simp
    qed simp
    then show "?Q i j (\<lparr>ctype = Delete, lineA = Some (i - 1), lineB = None, ctext = a ! (i - 1)\<rparr> # ext)"
      using q i by (simp add: replayA_def replayB_def take_snoc_nth)
  qed
  then show ?thesis by (auto simp: computeLCS_table)
qed

lemma lcs_len_single1: "lcs_len [x] ys \<le> 1"
  by (induction ys) simp_all

lemma lcs_len_single2: "lcs_len xs [x] \<le> 1"
  by (induction xs) simp_all

lemma lcs_len_step:
  "length xs + length ys \<le> n \<Longrightarrow>
     lcs_len xs ys \<le> lcs_len (x # xs) ys \<and> lcs_len xs ys \<le> lcs_len xs (x # ys)
   \<and> lcs_len (x # xs) ys \<le> lcs_len xs ys + 1 \<and> lcs_len xs (x # ys) \<le> lcs_len xs ys + 1"
proof (induction n arbitrary: xs ys x)
  case 0
  then show ?case by simp
next
  case (Suc n)
  show ?case
  proof (cases xs)
    case Nil
    then show ?thesis using lcs_len_single1[of x ys] by simp
  next
    case xs: (Cons u us)
    show ?thesis
    proof (cases ys)
      case Nil
      then show ?thesis using lcs_len_single2[of xs x] by simp
    next
      case ys: (Cons v vs)
      have l1: "length us + length ys \<le> n" and l2: "length xs + length vs \<le> n"
        and l3: "length us + length vs \<le> n"
        using Suc.prems xs ys by simp_all
      note A = Suc.IH[OF l1] and B = Suc.IH[OF l2] and C = Suc.IH[OF l3]
      have 1: "lcs_len xs ys \<le> lcs_len (x # xs) ys"
      proof (cases "x = v")
        case True
        then show ?thesis using B[of v] by (simp add: ys)
      next
        case False
        then show ?thesis by (simp add: ys)
      qed
      have 2: "lcs_len xs ys \<le> lcs_len xs (x # ys)"
      proof (cases "u = x")
        case True
        then show ?thesis using A[of x] by (simp add: xs)
      next
        case False
        then show ?thesis by (simp add: xs)
      qed
      have 3: "lcs_len (x # xs) ys \<le> lcs_len xs ys + 1"
      proof (cases "x = v")
        case True
        then show ?thesis using B[of v] by (simp add: ys)
      next
        case False
        then show ?thesis using B[of x] B[of v] by (simp add: ys)
      qed
      have 4: "lcs_len xs (x # ys) \<le> lcs_len xs ys + 1"
      proof (cases "u = x")
        case True
        then show ?thesis using A[of x] by (simp add: xs)
      next
        case False
        then show ?thesis using A[of x] A[of u] by (simp add: xs)
      qed
      from 1 2 3 4 show ?thesis by simp
    qed
  qed
qed

lemma lcs_len_mono1: "lcs_len xs ys \<le> lcs_len (x # xs) ys"
  using lcs_len_step[OF order_refl, of xs ys x] by simp

lemma lcs_len_mono2: "lcs_len xs ys \<le> lcs_len xs (x # ys)"
  using lcs_len_step[OF order_refl, of xs ys x] by simp

lemma lcs_len_same: "lcs_len (x # xs) (x # ys) = lcs_len xs ys + 1"
  by simp

lemma alignment_equal_le_lcs:
  "count_type Equal cs \<le> lcs_len (rev (replayA cs)) (rev (replayB cs))"
proof (induction cs rule: rev_induct)
  case Nil
  then show ?case by simp
next
  case (snoc c cs)
  show ?case
  proof (cases "ctype c")
    case Equal
    then show ?thesis using snoc by (simp add: replayA_def replayB_def)
  next
    case Delete
    then show ?thesis using snoc lcs_len_mono1[of "rev (replayA cs)" "rev (replayB cs)" "ctext c"]
      by (simp add: replayA_def replayB_def)
  next
    case Insert
    then show ?thesis using snoc lcs_len_mono2[of "rev (replayA cs)" "rev (replayB cs)" "ctext c"]
      by (simp add: replayA_def replayB_def)
  qed
qed

text \<open>
  C2. For all line sequences A and B, the number of Insert records plus Delete records of
  the backtracked change list is \<open>length A + length B - 2 * dp[length A][length B]\<close> for the
  table \<open>dp\<close> of \<^verbatim>\<open>computeLCS\<close>, and no alignment of A and B (no change list that replays
  to A and to B) has fewer records that are not Equal.
\<close>

theorem C2_minimal:
  "\<exists>changes. backtrack A B = Some changes
     \<and> int (count_type Insert changes + count_type Delete changes)
         = int (length A) + int (length B) - 2 * int (computeLCS A B ! length A ! length B)
     \<and> (\<forall>cs. replayA cs = A \<and> replayB cs = B \<longrightarrow>
           count_type Insert changes + count_type Delete changes
             \<le> count_type Insert cs + count_type Delete cs)"
proof -
  obtain changes where ch: "backtrack A B = Some changes" "replayA changes = A" "replayB changes = B"
    and eq: "count_type Equal changes = computeLCS A B ! length A ! length B"
    using backtrack_equal_count[of A B] by blast
  have lenA: "length A = count_type Equal changes + count_type Delete changes"
    by (subst ch(2)[symmetric]) (rule length_replayA)
  have lenB: "length B = count_type Equal changes + count_type Insert changes"
    by (subst ch(3)[symmetric]) (rule length_replayB)
  have 1: "int (count_type Insert changes + count_type Delete changes)
         = int (length A) + int (length B) - 2 * int (computeLCS A B ! length A ! length B)"
    using lenA lenB eq by linarith
  have 2: "count_type Insert changes + count_type Delete changes
             \<le> count_type Insert cs + count_type Delete cs"
    if "replayA cs = A \<and> replayB cs = B" for cs
  proof -
    from that have ra: "replayA cs = A" and rb: "replayB cs = B" by blast+
    have "count_type Equal cs \<le> lcs_len (rev A) (rev B)"
      using alignment_equal_le_lcs[of cs] unfolding ra rb .
    then have "count_type Equal cs \<le> count_type Equal changes"
      unfolding eq computeLCS_final .
    moreover have "length A = count_type Equal cs + count_type Delete cs"
      by (subst ra[symmetric]) (rule length_replayA)
    moreover have "length B = count_type Equal cs + count_type Insert cs"
      by (subst rb[symmetric]) (rule length_replayB)
    ultimately show ?thesis using lenA lenB by linarith
  qed
  show ?thesis
  proof (intro exI conjI allI impI)
    show "backtrack A B = Some changes" by (rule ch(1))
    show "int (count_type Insert changes + count_type Delete changes)
         = int (length A) + int (length B) - 2 * int (computeLCS A B ! length A ! length B)"
      by (rule 1)
    show "count_type Insert changes + count_type Delete changes
             \<le> count_type Insert cs + count_type Delete cs"
      if "replayA cs = A \<and> replayB cs = B" for cs
      using that by (rule 2)
  qed
qed

lemma backtrack_xy:
  "backtrack [''x'', ''y''] [''y'', ''x''] =
     Some [\<lparr>ctype = Delete, lineA = Some 0, lineB = None, ctext = ''x''\<rparr>,
           \<lparr>ctype = Equal, lineA = Some 1, lineB = Some 0, ctext = ''y''\<rparr>,
           \<lparr>ctype = Insert, lineA = None, lineB = Some 1, ctext = ''x''\<rparr>]"
  by code_simp

theorem C2_minimal_witness:
  "replayA [\<lparr>ctype = Delete, lineA = Some 0, lineB = None, ctext = ''x''\<rparr>,
            \<lparr>ctype = Delete, lineA = Some 1, lineB = None, ctext = ''y''\<rparr>,
            \<lparr>ctype = Insert, lineA = None, lineB = Some 0, ctext = ''y''\<rparr>,
            \<lparr>ctype = Insert, lineA = None, lineB = Some 1, ctext = ''x''\<rparr>] = [''x'', ''y'']
   \<and> replayB [\<lparr>ctype = Delete, lineA = Some 0, lineB = None, ctext = ''x''\<rparr>,
            \<lparr>ctype = Delete, lineA = Some 1, lineB = None, ctext = ''y''\<rparr>,
            \<lparr>ctype = Insert, lineA = None, lineB = Some 0, ctext = ''y''\<rparr>,
            \<lparr>ctype = Insert, lineA = None, lineB = Some 1, ctext = ''x''\<rparr>] = [''y'', ''x'']
   \<and> (\<exists>changes. backtrack [''x'', ''y''] [''y'', ''x''] = Some changes
        \<and> count_type Insert changes + count_type Delete changes = 2
        \<and> count_type Insert changes + count_type Delete changes
            \<le> count_type Insert [\<lparr>ctype = Delete, lineA = Some 0, lineB = None, ctext = ''x''\<rparr>,
            \<lparr>ctype = Delete, lineA = Some 1, lineB = None, ctext = ''y''\<rparr>,
            \<lparr>ctype = Insert, lineA = None, lineB = Some 0, ctext = ''y''\<rparr>,
            \<lparr>ctype = Insert, lineA = None, lineB = Some 1, ctext = ''x''\<rparr>]
             + count_type Delete [\<lparr>ctype = Delete, lineA = Some 0, lineB = None, ctext = ''x''\<rparr>,
            \<lparr>ctype = Delete, lineA = Some 1, lineB = None, ctext = ''y''\<rparr>,
            \<lparr>ctype = Insert, lineA = None, lineB = Some 0, ctext = ''y''\<rparr>,
            \<lparr>ctype = Insert, lineA = None, lineB = Some 1, ctext = ''x''\<rparr>])"
  using C2_minimal[of "[''x'', ''y'']" "[''y'', ''x'']"]
  by (simp add: backtrack_xy computeLCS_xy replayA_def replayB_def)

section \<open>Scenario: an insertion into an empty sequence\<close>

lemma backtrack_new:
  "backtrack [] [''new''] = Some [\<lparr>ctype = Insert, lineA = None, lineB = Some 0, ctext = ''new''\<rparr>]"
  by code_simp

lemma diff_hunks_new:
  "diff_hunks [] [''new''] 3 =
     Some [\<lparr>startA = 0, countA = 0, startB = 0, countB = 1, lines = [''+new'']\<rparr>]"
  by code_simp

lemma hunk_header_new:
  "hunk_header \<lparr>startA = 0, countA = 0, startB = 0, countB = 1, lines = [''+new'']\<rparr> = ''@@ -1,0 +1,1 @@''"
  by code_simp

text \<open>
  C7 as stated fails: for A empty and B = ["new"] with three context lines, the header of
  the only hunk is \<open>@@ -1,0 +1,1 @@\<close>, not \<open>@@ -0,0 +1,1 @@\<close>. Line 1163 prints
  \<open>startA + 1\<close> for every hunk, also for one with no line of A.
\<close>

theorem C7_counterexample:
  "map_option (map hunk_header) (diff_hunks [] [''new''] 3) = Some [''@@ -1,0 +1,1 @@'']
   \<and> map_option (map hunk_header) (diff_hunks [] [''new''] 3) \<noteq> Some [''@@ -0,0 +1,1 @@'']"
proof -
  have "map_option (map hunk_header) (diff_hunks [] [''new''] 3) = Some [''@@ -1,0 +1,1 @@'']"
    unfolding diff_hunks_new by (simp only: option.map list.map hunk_header_new)
  moreover have "Some [''@@ -1,0 +1,1 @@''] \<noteq> Some [''@@ -0,0 +1,1 @@'']" by simp
  ultimately show ?thesis by (simp only: simp_thms)
qed

lemma computeUnifiedDiff_hunks:
  "computeUnifiedDiff A B contextLines fileA fileB =
     map_option (\<lambda>hs. format_output hs fileA fileB) (diff_hunks A B contextLines)"
  by (simp add: computeUnifiedDiff_def diff_hunks_def split: option.splits)

text \<open>
  C7, amended. For A empty and B = ["new"] with three context lines,
  \<^verbatim>\<open>computeUnifiedDiff\<close> produces exactly one hunk, whose body is the single line \<open>+new\<close>
  and whose rendered header is \<open>@@ -1,0 +1,1 @@\<close>; the report is the two label lines, that
  header and that line.
\<close>

theorem C7_pure_insertion:
  "diff_hunks [] [''new''] 3 = Some [\<lparr>startA = 0, countA = 0, startB = 0, countB = 1, lines = [''+new'']\<rparr>]
   \<and> map_option (map hunk_header) (diff_hunks [] [''new''] 3) = Some [''@@ -1,0 +1,1 @@'']
   \<and> computeUnifiedDiff [] [''new''] 3 fileA fileB =
       Some (''--- '' @ fileA @ ''\<newline>+++ '' @ fileB @ ''\<newline>@@ -1,0 +1,1 @@\<newline>+new'')"
proof -
  have h: "map_option (map hunk_header) (diff_hunks [] [''new''] 3) = Some [''@@ -1,0 +1,1 @@'']"
    unfolding diff_hunks_new by (simp only: option.map list.map hunk_header_new)
  have "format_output [\<lparr>startA = 0, countA = 0, startB = 0, countB = 1, lines = [''+new'']\<rparr>] fileA fileB
      = ''--- '' @ fileA @ ''\<newline>+++ '' @ fileB @ ''\<newline>@@ -1,0 +1,1 @@\<newline>+new''"
    unfolding format_output_def by (simp add: hunk_header_new del: One_nat_def)
  then have "computeUnifiedDiff [] [''new''] 3 fileA fileB =
       Some (''--- '' @ fileA @ ''\<newline>+++ '' @ fileB @ ''\<newline>@@ -1,0 +1,1 @@\<newline>+new'')"
    unfolding computeUnifiedDiff_hunks diff_hunks_new by (simp only: option.map)
  with h diff_hunks_new show ?thesis by blast
qed

section \<open>The hunk loop computes the pass over the list\<close>

text \<open>What the three inner loops add, as list expressions.\<close>

lemma patch_line_Equal: "ctype c = Equal \<Longrightarrow> patch_line c = CHR '' '' # ctext c"
  by (simp add: patch_line_def)

lemma patch_line_change:
  "ctype c \<noteq> Equal \<Longrightarrow> patch_line c = (if ctype c = Delete then CHR ''-'' else CHR ''+'') # ctext c"
  by (cases "ctype c") (simp_all add: patch_line_def)

lemma trailing_loop_stop:
  "\<not> (k < length cs \<and> added < n) \<Longrightarrow> trailing_loop cs n k added s = s"
  by (subst trailing_loop.simps) auto

lemma trailing_loop_take:
  "k < length cs \<Longrightarrow> added < n \<Longrightarrow> ctype (cs ! k) = Equal \<Longrightarrow>
   trailing_loop cs n k added s =
     trailing_loop cs n (k + 1) (added + 1)
       (s\<lparr>hunkLines := hunkLines s @ [CHR '' '' # ctext (cs ! k)],
          hunkCountA := hunkCountA s + 1, hunkCountB := hunkCountB s + 1\<rparr>)"
  by (subst trailing_loop.simps) simp

lemma trailing_loop_skip:
  "k < length cs \<Longrightarrow> added < n \<Longrightarrow> ctype (cs ! k) \<noteq> Equal \<Longrightarrow>
   trailing_loop cs n k added s = trailing_loop cs n (k + 1) added s"
  by (subst trailing_loop.simps) simp

lemma trailing_loop_eq:
  "trailing_loop cs n k added s =
     (let E = take (n - added) (filter (\<lambda>c. ctype c = Equal) (drop k cs))
      in s\<lparr>hunkLines := hunkLines s @ map patch_line E,
            hunkCountA := hunkCountA s + length E, hunkCountB := hunkCountB s + length E\<rparr>)"
proof (induction cs n k added s rule: trailing_loop.induct)
  case (1 changes n k added s)
  show ?case
  proof (cases "k < length changes \<and> added < n")
    case False
    then have e: "take (n - added) (filter (\<lambda>c. ctype c = Equal) (drop k changes)) = []" by auto
    have "trailing_loop changes n k added s = s" using False by (rule trailing_loop_stop)
    then show ?thesis unfolding Let_def e by simp
  next
    case run: True
    then have d: "drop k changes = changes ! k # drop (k + 1) changes"
      by (simp add: Cons_nth_drop_Suc)
    from run have n: "n - added = Suc (n - (added + 1))" by arith
    show ?thesis
    proof (cases "ctype (changes ! k) = Equal")
      case True
      have e: "take (n - added) (filter (\<lambda>c. ctype c = Equal) (drop k changes))
           = changes ! k # take (n - (added + 1)) (filter (\<lambda>c. ctype c = Equal) (drop (k + 1) changes))"
        unfolding d n using True by simp
      show ?thesis
        unfolding trailing_loop_take[of k changes added n, OF conjunct1[OF run] conjunct2[OF run] True]
          "1.IH"(1)[OF run True] Let_def e
        by (simp add: patch_line_Equal True)
    next
      case False
      have e: "take (n - added) (filter (\<lambda>c. ctype c = Equal) (drop k changes))
           = take (n - added) (filter (\<lambda>c. ctype c = Equal) (drop (k + 1) changes))"
        unfolding d using False by simp
      show ?thesis
        unfolding trailing_loop_skip[of k changes added n, OF conjunct1[OF run] conjunct2[OF run] False]
          "1.IH"(2)[OF run False] Let_def e
        by simp
    qed
  qed
qed

lemma gap_loop_stop: "\<not> k < idx \<Longrightarrow> gap_loop cs k idx s = s"
  by (subst gap_loop.simps) simp

lemma gap_loop_take:
  "k < idx \<Longrightarrow> ctype (cs ! k) = Equal \<Longrightarrow>
   gap_loop cs k idx s =
     gap_loop cs (k + 1) idx
       (s\<lparr>hunkLines := hunkLines s @ [CHR '' '' # ctext (cs ! k)],
          hunkCountA := hunkCountA s + 1, hunkCountB := hunkCountB s + 1\<rparr>)"
  by (subst gap_loop.simps) simp

lemma gap_loop_skip:
  "k < idx \<Longrightarrow> ctype (cs ! k) \<noteq> Equal \<Longrightarrow> gap_loop cs k idx s = gap_loop cs (k + 1) idx s"
  by (subst gap_loop.simps) simp

lemma gap_loop_eq:
  "idx \<le> length cs \<Longrightarrow> gap_loop cs k idx s =
     (let E = filter (\<lambda>c. ctype c = Equal) (take (idx - k) (drop k cs))
      in s\<lparr>hunkLines := hunkLines s @ map patch_line E,
            hunkCountA := hunkCountA s + length E, hunkCountB := hunkCountB s + length E\<rparr>)"
proof (induction cs k idx s rule: gap_loop.induct)
  case (1 changes k idx s)
  show ?case
  proof (cases "k < idx")
    case False
    then have e: "take (idx - k) (drop k changes) = []" by simp
    have "gap_loop changes k idx s = s" using False by (rule gap_loop_stop)
    then show ?thesis unfolding Let_def e by simp
  next
    case run: True
    with "1.prems" have d: "drop k changes = changes ! k # drop (k + 1) changes"
      by (simp add: Cons_nth_drop_Suc)
    from run have n: "idx - k = Suc (idx - (k + 1))" by arith
    have t: "take (idx - k) (drop k changes) = changes ! k # take (idx - (k + 1)) (drop (k + 1) changes)"
      unfolding d n by simp
    show ?thesis
    proof (cases "ctype (changes ! k) = Equal")
      case True
      show ?thesis
        unfolding gap_loop_take[of k idx changes, OF run True] "1.IH"(1)[OF run True "1.prems"] Let_def t
        by (simp add: patch_line_Equal True)
    next
      case False
      show ?thesis
        unfolding gap_loop_skip[of k idx changes, OF run False] "1.IH"(2)[OF run False "1.prems"] Let_def t
        using False by simp
    qed
  qed
qed

lemma leading_loop_stop:
  "\<not> (k \<ge> 0 \<and> cnt < n) \<Longrightarrow> leading_loop cs n k cnt hl = (cnt, hl)"
  by (subst leading_loop.simps) auto

lemma leading_loop_take:
  "k \<ge> 0 \<Longrightarrow> cnt < n \<Longrightarrow> ctype (cs ! nat k) = Equal \<Longrightarrow>
   leading_loop cs n k cnt hl =
     leading_loop cs n (k - 1) (cnt + 1) ((CHR '' '' # ctext (cs ! nat k)) # hl)"
  by (subst leading_loop.simps) simp

lemma leading_loop_break:
  "k \<ge> 0 \<Longrightarrow> cnt < n \<Longrightarrow> ctype (cs ! nat k) \<noteq> Equal \<Longrightarrow>
   leading_loop cs n k cnt hl = (cnt, hl)"
  by (subst leading_loop.simps) simp

lemma leading_loop_eq:
  "k < int (length cs) \<Longrightarrow> leading_loop cs n k cnt hl =
     (let E = rev (take (n - cnt) (takeWhile (\<lambda>c. ctype c = Equal) (rev (take (nat (k + 1)) cs))))
      in (cnt + length E, map patch_line E @ hl))"
proof (induction cs n k cnt hl rule: leading_loop.induct)
  case (1 changes n k cnt hl)
  show ?case
  proof (cases "k \<ge> 0 \<and> cnt < n")
    case False
    then have e: "take (n - cnt) (takeWhile (\<lambda>c. ctype c = Equal) (rev (take (nat (k + 1)) changes))) = []"
      by auto
    have "leading_loop changes n k cnt hl = (cnt, hl)" using False by (rule leading_loop_stop)
    then show ?thesis unfolding Let_def e by simp
  next
    case run: True
    with "1.prems" have nk: "nat k < length changes" by linarith
    from run have "nat (k + 1) = Suc (nat k)" by linarith
    then have t: "take (nat (k + 1)) changes = take (nat k) changes @ [changes ! nat k]"
      using nk by (simp add: take_Suc_conv_app_nth)
    from run have n: "n - cnt = Suc (n - (cnt + 1))" by arith
    have k1: "nat (k - 1 + 1) = nat k" by simp
    show ?thesis
    proof (cases "ctype (changes ! nat k) = Equal")
      case True
      have lt: "k - 1 < int (length changes)" using "1.prems" by simp
      have e: "rev (take (n - cnt) (takeWhile (\<lambda>c. ctype c = Equal) (rev (take (nat (k + 1)) changes))))
          = rev (take (n - (cnt + 1)) (takeWhile (\<lambda>c. ctype c = Equal) (rev (take (nat k) changes)))) @ [changes ! nat k]"
        unfolding t n using True by simp
      show ?thesis
        unfolding leading_loop_take[of k cnt n changes, OF conjunct1[OF run] conjunct2[OF run] True]
          "1.IH"[OF run True lt] Let_def e k1
        by (simp add: patch_line_Equal True)
    next
      case False
      have e: "takeWhile (\<lambda>c. ctype c = Equal) (rev (take (nat (k + 1)) changes)) = []"
        unfolding t using False by simp
      show ?thesis
        unfolding leading_loop_break[of k cnt n changes, OF conjunct1[OF run] conjunct2[OF run] False] Let_def e
        by simp
    qed
  qed
qed

text \<open>The three ways in which the body of the loop treats a record that is not Equal.\<close>

lemma close_hunk_lines:
  "map lines (hunks (close_hunk cs n s)) =
     map lines (hunks s) @
       [hunkLines s @ map patch_line (take n (filter (\<lambda>c. ctype c = Equal) (drop (nat (lastChangeIdx s + 1)) cs)))]"
  by (simp add: close_hunk_def trailing_loop_eq Let_def)

lemma close_hunk_last: "lastChangeIdx (close_hunk cs n s) = lastChangeIdx s"
  by (simp add: close_hunk_def trailing_loop_eq Let_def)

lemma hunk_step_first:
  assumes "hunkLines s = []" "ctype (cs ! idx) \<noteq> Equal" "idx < length cs"
  shows "hunks (hunk_step cs n idx s) = hunks s"
    and "hunkLines (hunk_step cs n idx s) =
           map patch_line (rev (take n (takeWhile (\<lambda>c. ctype c = Equal) (rev (take idx cs))))) @ [patch_line (cs ! idx)]"
    and "lastChangeIdx (hunk_step cs n idx s) = int idx"
proof -
  have lt: "int idx - 1 < int (length cs)" using assms(3) by simp
  have k: "nat (int idx - 1 + 1) = idx" by simp
  show "hunks (hunk_step cs n idx s) = hunks s"
    using assms by (simp add: hunk_step_def Let_def leading_loop_eq[OF lt] k)
  show "hunkLines (hunk_step cs n idx s) =
           map patch_line (rev (take n (takeWhile (\<lambda>c. ctype c = Equal) (rev (take idx cs))))) @ [patch_line (cs ! idx)]"
    using assms by (simp add: hunk_step_def Let_def leading_loop_eq[OF lt] k patch_line_change)
  show "lastChangeIdx (hunk_step cs n idx s) = int idx"
    using assms by (simp add: hunk_step_def Let_def leading_loop_eq[OF lt] k)
qed

lemma hunk_step_split:
  assumes "hunkLines s \<noteq> []" "int idx - lastChangeIdx s > int n * 2 + 1"
    "ctype (cs ! idx) \<noteq> Equal" "idx < length cs"
  shows "map lines (hunks (hunk_step cs n idx s)) =
           map lines (hunks s) @
             [hunkLines s @ map patch_line (take n (filter (\<lambda>c. ctype c = Equal) (drop (nat (lastChangeIdx s + 1)) cs)))]"
    and "hunkLines (hunk_step cs n idx s) =
           map patch_line (rev (take n (takeWhile (\<lambda>c. ctype c = Equal) (rev (take idx cs))))) @ [patch_line (cs ! idx)]"
    and "lastChangeIdx (hunk_step cs n idx s) = int idx"
proof -
  have lt: "int idx - 1 < int (length cs)" using assms(4) by simp
  have k: "nat (int idx - 1 + 1) = idx" by simp
  show "map lines (hunks (hunk_step cs n idx s)) =
           map lines (hunks s) @
             [hunkLines s @ map patch_line (take n (filter (\<lambda>c. ctype c = Equal) (drop (nat (lastChangeIdx s + 1)) cs)))]"
    using assms by (simp add: hunk_step_def Let_def leading_loop_eq[OF lt] k close_hunk_lines)
  show "hunkLines (hunk_step cs n idx s) =
           map patch_line (rev (take n (takeWhile (\<lambda>c. ctype c = Equal) (rev (take idx cs))))) @ [patch_line (cs ! idx)]"
    using assms by (simp add: hunk_step_def Let_def leading_loop_eq[OF lt] k patch_line_change)
  show "lastChangeIdx (hunk_step cs n idx s) = int idx"
    using assms by (simp add: hunk_step_def Let_def leading_loop_eq[OF lt] k)
qed

lemma hunk_step_merge:
  assumes "hunkLines s \<noteq> []" "\<not> int idx - lastChangeIdx s > int n * 2 + 1"
    "ctype (cs ! idx) \<noteq> Equal" "idx < length cs"
  shows "hunks (hunk_step cs n idx s) = hunks s"
    and "hunkLines (hunk_step cs n idx s) =
           hunkLines s @
           map patch_line (filter (\<lambda>c. ctype c = Equal)
              (take (idx - nat (lastChangeIdx s + 1)) (drop (nat (lastChangeIdx s + 1)) cs)))
           @ [patch_line (cs ! idx)]"
    and "lastChangeIdx (hunk_step cs n idx s) = int idx"
proof -
  have le: "idx \<le> length cs" using assms(4) by simp
  show "hunks (hunk_step cs n idx s) = hunks s"
    using assms by (simp add: hunk_step_def Let_def gap_loop_eq[OF le])
  show "hunkLines (hunk_step cs n idx s) =
           hunkLines s @
           map patch_line (filter (\<lambda>c. ctype c = Equal)
              (take (idx - nat (lastChangeIdx s + 1)) (drop (nat (lastChangeIdx s + 1)) cs)))
           @ [patch_line (cs ! idx)]"
    using assms by (simp add: hunk_step_def Let_def gap_loop_eq[OF le] patch_line_change)
  show "lastChangeIdx (hunk_step cs n idx s) = int idx"
    using assms by (simp add: hunk_step_def Let_def gap_loop_eq[OF le])
qed

lemma rev_take_rev: "rev (take n (rev xs)) = drop (length xs - n) xs"
  by (simp add: take_rev)

lemma filter_all_equal:
  "list_all (\<lambda>c. ctype c = Equal) xs \<Longrightarrow> filter (\<lambda>c. ctype c = Equal) xs = xs"
  by (induction xs) simp_all

lemma takeWhile_all_equal:
  "list_all (\<lambda>c. ctype c = Equal) xs \<Longrightarrow> takeWhile (\<lambda>c. ctype c = Equal) (rev xs @ ys) = rev xs @ takeWhile (\<lambda>c. ctype c = Equal) ys"
  by (rule takeWhile_append2) (simp add: list_all_iff)

lemma lead_all_equal:
  assumes "list_all (\<lambda>c. ctype c = Equal) pend" "front @ pend = xs" "front = [] \<or> n \<le> length pend"
  shows "rev (take n (takeWhile (\<lambda>c. ctype c = Equal) (rev xs))) = drop (length pend - n) pend"
proof -
  have "takeWhile (\<lambda>c. ctype c = Equal) (rev xs) = rev pend @ takeWhile (\<lambda>c. ctype c = Equal) (rev front)"
    using takeWhile_all_equal[OF assms(1)] assms(2) by auto
  moreover have "take n (rev pend @ takeWhile (\<lambda>c. ctype c = Equal) (rev front)) = take n (rev pend)"
    using assms(3) by auto
  ultimately show ?thesis by (simp add: rev_take_rev)
qed

lemma trail_all_equal:
  assumes "list_all (\<lambda>c. ctype c = Equal) pend" "n \<le> length pend \<or> rest = []"
  shows "take n (filter (\<lambda>c. ctype c = Equal) (pend @ rest)) = take n pend"
  using assms by (auto simp: filter_all_equal)

lemma coupled_step:
  assumes c: "coupled cs idx s st" and idx: "idx < length cs"
  shows "coupled cs (idx + 1) (hunk_step cs n idx s) (absorb n st (cs ! idx))"
proof -
  obtain H cur pend where st: "st = (H, cur, pend)" by (cases st) auto
  from c st have H: "map lines (hunks s) = H" and cur: "hunkLines s = cur"
    and eq: "list_all (\<lambda>c. ctype c = Equal) pend"
    and none: "cur = [] \<Longrightarrow> pend = take idx cs"
    and some: "cur \<noteq> [] \<Longrightarrow> 0 \<le> lastChangeIdx s \<and> nat (lastChangeIdx s) + 1 + length pend = idx
                 \<and> pend = drop (nat (lastChangeIdx s) + 1) (take idx cs)"
    by (auto simp: coupled_def split: if_splits)
  have tk: "take (idx + 1) cs = take idx cs @ [cs ! idx]"
    using idx by (simp add: take_Suc_conv_app_nth)
  show ?thesis
  proof (cases "ctype (cs ! idx) = Equal")
    case True
    have "hunk_step cs n idx s = s" using True by (rule hunk_step_equal)
    moreover have "absorb n st (cs ! idx) = (H, cur, pend @ [cs ! idx])" using True st by simp
    moreover have "cur = [] \<Longrightarrow> pend @ [cs ! idx] = take (idx + 1) cs" using none tk by simp
    moreover have "cur \<noteq> [] \<Longrightarrow> pend @ [cs ! idx] = drop (nat (lastChangeIdx s) + 1) (take (idx + 1) cs)"
      using some tk idx by auto
    ultimately show ?thesis using H cur eq True idx some
      by (auto simp: coupled_def)
  next
    case chg: False
    show ?thesis
    proof (cases "cur = []")
      case True
      have l: "rev (take n (takeWhile (\<lambda>c. ctype c = Equal) (rev (take idx cs)))) = drop (length pend - n) pend"
        using lead_all_equal[OF eq, of "[]" "take idx cs" n] none[OF True] by simp
      have ab: "absorb n st (cs ! idx) = (H, map patch_line (drop (length pend - n) pend) @ [patch_line (cs ! idx)], [])"
        using chg True st by simp
      from True cur have e: "hunkLines s = []" by simp
      show ?thesis
        unfolding ab coupled_def
        using hunk_step_first[OF e chg idx, of n] H idx l by simp
    next
      case opn: False
      from some[OF opn] have last: "0 \<le> lastChangeIdx s" and len: "nat (lastChangeIdx s) + 1 + length pend = idx"
        and pend: "pend = drop (nat (lastChangeIdx s) + 1) (take idx cs)" by blast+
      have k: "nat (lastChangeIdx s + 1) = nat (lastChangeIdx s) + 1" using last by simp
      from opn cur have ne: "hunkLines s \<noteq> []" by simp
      have gap: "int idx - lastChangeIdx s > int n * 2 + 1 \<longleftrightarrow> length pend > 2 * n"
        using len last by linarith
      have front: "take (nat (lastChangeIdx s) + 1) cs @ pend = take idx cs"
        using len by (subst pend) (metis append_take_drop_id le_add1 min.absorb1 take_take add.assoc)
      show ?thesis
      proof (cases "length pend > 2 * n")
        case True
        have ab: "absorb n st (cs ! idx) =
            (H @ [cur @ map patch_line (take n pend)],
             map patch_line (drop (length pend - n) pend) @ [patch_line (cs ! idx)], [])"
          using chg opn True st by simp
        have l: "rev (take n (takeWhile (\<lambda>c. ctype c = Equal) (rev (take idx cs)))) = drop (length pend - n) pend"
          using lead_all_equal[OF eq front, of n] True by simp
        have "drop (nat (lastChangeIdx s) + 1) cs = pend @ drop idx cs"
          using len by (subst pend) (metis add.assoc append_take_drop_id drop_append le_add1 length_take min.absorb2 idx less_imp_le_nat diff_is_0_eq drop0 drop_take)
        then have t: "take n (filter (\<lambda>c. ctype c = Equal) (drop (nat (lastChangeIdx s + 1)) cs)) = take n pend"
          using trail_all_equal[OF eq, of n "drop idx cs"] True k by simp
        from True gap have g: "int idx - lastChangeIdx s > int n * 2 + 1" by simp
        show ?thesis
          unfolding ab coupled_def
          using hunk_step_split[OF ne g chg idx] H cur idx l t by simp
      next
        case False
        have ab: "absorb n st (cs ! idx) = (H, cur @ map patch_line pend @ [patch_line (cs ! idx)], [])"
          using chg opn False st by simp
        have "take (idx - nat (lastChangeIdx s + 1)) (drop (nat (lastChangeIdx s + 1)) cs) = pend"
          unfolding k by (subst pend) (simp add: drop_take)
        then have m: "filter (\<lambda>c. ctype c = Equal)
              (take (idx - nat (lastChangeIdx s + 1)) (drop (nat (lastChangeIdx s + 1)) cs)) = pend"
          using filter_all_equal[OF eq] by simp
        from False gap have g: "\<not> int idx - lastChangeIdx s > int n * 2 + 1" by simp
        show ?thesis
          unfolding ab coupled_def
          using hunk_step_merge[OF ne g chg idx] H cur idx m by simp
      qed
    qed
  qed
qed

lemma hunk_loop_coupled:
  "coupled cs (length cs) (hunk_loop cs n 0 init_gstate) (foldl (absorb n) ([], [], []) cs)"
proof -
  let ?P = "\<lambda>k s. coupled cs k s (foldl (absorb n) ([], [], []) (take k cs))"
  have "?P (length cs) (hunk_loop cs n 0 init_gstate)"
  proof (rule hunk_loop_invariant[where P = ?P])
    show "?P 0 init_gstate" by (simp add: coupled_def init_gstate_def)
  next
    fix k t assume k: "k < length cs" and p: "?P k t"
    have "take (k + 1) cs = take k cs @ [cs ! k]" using k by (simp add: take_Suc_conv_app_nth)
    then show "?P (k + 1) (hunk_step cs n k t)"
      using coupled_step[OF p k, of n] by simp
  qed simp
  then show ?thesis by simp
qed

text \<open>
  The lines of the hunks built by lines 1074 to 1152 are those of the pass.
\<close>

lemma group_hunks_window: "map lines (group_hunks cs n) = window_hunks n cs"
proof -
  define s where "s = hunk_loop cs n 0 init_gstate"
  obtain H cur pend where st: "foldl (absorb n) ([], [], []) cs = (H, cur, pend)"
    by (cases "foldl (absorb n) ([], [], []) cs") auto
  have c: "coupled cs (length cs) s (H, cur, pend)"
    using hunk_loop_coupled[of cs n] st s_def by simp
  then have H: "map lines (hunks s) = H" and cur: "hunkLines s = cur"
    and eq: "list_all (\<lambda>c. ctype c = Equal) pend" by (auto simp: coupled_def)
  show ?thesis
  proof (cases "cur = []")
    case True
    then show ?thesis using H cur st by (simp add: group_hunks_def window_hunks_def s_def[symmetric])
  next
    case False
    with c have last: "0 \<le> lastChangeIdx s" and pend: "pend = drop (nat (lastChangeIdx s) + 1) cs"
      by (auto simp: coupled_def)
    have k: "nat (lastChangeIdx s + 1) = nat (lastChangeIdx s) + 1" using last by simp
    have "take n (filter (\<lambda>c. ctype c = Equal) (drop (nat (lastChangeIdx s + 1)) cs)) = take n pend"
      using trail_all_equal[OF eq, of n "[]"] pend k by simp
    then show ?thesis using False H cur st
      by (simp add: group_hunks_def window_hunks_def s_def[symmetric] close_hunk_lines)
  qed
qed

section \<open>Every change is printed once, and the reports of swapped inputs\<close>

lemma is_context_patch_line [simp]: "is_context_line (patch_line c) \<longleftrightarrow> ctype c = Equal"
  by (cases "ctype c") (simp_all add: is_context_line_def patch_line_def)

lemma changed_lines_append [simp]: "changed_lines (xs @ ys) = changed_lines xs @ changed_lines ys"
  by (simp add: changed_lines_def)

lemma changed_lines_Nil [simp]: "changed_lines [] = []"
  by (simp add: changed_lines_def)

lemma changed_lines_patch:
  "changed_lines (map patch_line xs) = map patch_line (filter (\<lambda>c. ctype c \<noteq> Equal) xs)"
  by (induction xs) (simp_all add: changed_lines_def)

lemma changed_lines_equal [simp]:
  "list_all (\<lambda>c. ctype c = Equal) xs \<Longrightarrow> changed_lines (map patch_line xs) = []"
  by (induction xs) (simp_all add: changed_lines_def)

lemma changed_lines_single [simp]:
  "ctype c \<noteq> Equal \<Longrightarrow> changed_lines [patch_line c] = [patch_line c]"
  by (simp add: changed_lines_def)

lemma all_equal_take [simp]:
  "list_all (\<lambda>c. ctype c = Equal) xs \<Longrightarrow> list_all (\<lambda>c. ctype c = Equal) (take n xs)"
  by (auto simp: list_all_iff dest: in_set_takeD)

lemma all_equal_drop [simp]:
  "list_all (\<lambda>c. ctype c = Equal) xs \<Longrightarrow> list_all (\<lambda>c. ctype c = Equal) (drop n xs)"
  by (auto simp: list_all_iff dest: in_set_dropD)

text \<open>After a record that is not Equal the pass has an open hunk that ends with its line.\<close>

lemma absorb_change:
  assumes "ctype c \<noteq> Equal" "list_all (\<lambda>c. ctype c = Equal) pend"
  shows "\<exists>H' u. absorb n (H, cur, pend) c = (H', u @ [patch_line c], [])
           \<and> changed_lines (concat H' @ u) = changed_lines (concat H @ cur)"
proof (cases "cur = []")
  case True
  then show ?thesis using assms by simp
next
  case False
  show ?thesis
  proof (cases "length pend > 2 * n")
    case True
    have "absorb n (H, cur, pend) c =
        (H @ [cur @ map patch_line (take n pend)], map patch_line (drop (length pend - n) pend) @ [patch_line c], [])"
      using assms False True by simp
    moreover have "changed_lines (concat (H @ [cur @ map patch_line (take n pend)]) @ map patch_line (drop (length pend - n) pend))
        = changed_lines (concat H @ cur)"
      using assms by simp
    ultimately show ?thesis by blast
  next
    case g: False
    have "absorb n (H, cur, pend) c = (H, (cur @ map patch_line pend) @ [patch_line c], [])"
      using assms False g by simp
    moreover have "changed_lines (concat H @ cur @ map patch_line pend) = changed_lines (concat H @ cur)"
      using assms by simp
    ultimately show ?thesis by blast
  qed
qed

lemma foldl_absorb_equal:
  "list_all (\<lambda>c. ctype c = Equal) eqs \<Longrightarrow> foldl (absorb n) (H, cur, pend) eqs = (H, cur, pend @ eqs)"
  by (induction eqs arbitrary: pend) simp_all

text \<open>The state of the pass after any list: the pending records are Equal, and the changed
  lines so far are the lines of the records that are not Equal, in order.\<close>

lemma foldl_absorb_changed:
  assumes "list_all (\<lambda>c. ctype c = Equal) pend"
  shows "\<exists>H' cur' pend'. foldl (absorb n) (H, cur, pend) cs = (H', cur', pend')
           \<and> list_all (\<lambda>c. ctype c = Equal) pend'
           \<and> changed_lines (concat H' @ cur') =
               changed_lines (concat H @ cur) @ map patch_line (filter (\<lambda>c. ctype c \<noteq> Equal) cs)"
  using assms
proof (induction cs arbitrary: H cur pend)
  case Nil
  then show ?case by simp
next
  case (Cons c cs)
  show ?case
  proof (cases "ctype c = Equal")
    case True
    have "list_all (\<lambda>c. ctype c = Equal) (pend @ [c])" using Cons.prems True by simp
    from Cons.IH[OF this, of H cur] True show ?thesis by simp
  next
    case False
    from absorb_change[OF False Cons.prems, of n H cur] obtain H1 u where
      a: "absorb n (H, cur, pend) c = (H1, u @ [patch_line c], [])"
      and ch: "changed_lines (concat H1 @ u) = changed_lines (concat H @ cur)" by blast
    have "list_all (\<lambda>c. ctype c = Equal) ([]::change list)" by simp
    from Cons.IH[OF this, of H1 "u @ [patch_line c]"] obtain H' cur' pend' where
      "foldl (absorb n) (H1, u @ [patch_line c], []) cs = (H', cur', pend')"
      "list_all (\<lambda>c. ctype c = Equal) pend'"
      "changed_lines (concat H' @ cur') =
         changed_lines (concat H1 @ u @ [patch_line c]) @ map patch_line (filter (\<lambda>c. ctype c \<noteq> Equal) cs)"
      by blast
    then show ?thesis using a ch False by simp
  qed
qed

lemma finish_changed:
  "list_all (\<lambda>c. ctype c = Equal) pend \<Longrightarrow>
   changed_lines (concat (finish n (H, cur, pend))) = changed_lines (concat H @ cur)"
  by simp

lemma window_hunks_changed:
  "changed_lines (concat (window_hunks n cs)) = map patch_line (filter (\<lambda>c. ctype c \<noteq> Equal) cs)"
proof -
  obtain H' cur' pend' where "foldl (absorb n) ([], [], []) cs = (H', cur', pend')"
    "list_all (\<lambda>c. ctype c = Equal) pend'"
    "changed_lines (concat H' @ cur') = map patch_line (filter (\<lambda>c. ctype c \<noteq> Equal) cs)"
    using foldl_absorb_changed[of "[]" n "[]" "[]" cs] by auto
  then show ?thesis using finish_changed[of pend' n H' cur'] by (simp add: window_hunks_def)
qed

lemma group_hunks_changed:
  "changed_lines (concat (map lines (group_hunks cs n))) = map patch_line (filter (\<lambda>c. ctype c \<noteq> Equal) cs)"
  by (simp add: group_hunks_window window_hunks_changed)

lemma count_prefix_patch:
  "count_prefix (CHR ''+'') (map patch_line (filter (\<lambda>c. ctype c \<noteq> Equal) cs)) = count_type Insert cs"
  "count_prefix (CHR ''-'') (map patch_line (filter (\<lambda>c. ctype c \<noteq> Equal) cs)) = count_type Delete cs"
proof -
  show "count_prefix (CHR ''+'') (map patch_line (filter (\<lambda>c. ctype c \<noteq> Equal) cs)) = count_type Insert cs"
  proof (induction cs)
    case (Cons c cs)
    then show ?case by (cases "ctype c") (simp_all add: count_prefix_def patch_line_def)
  qed (simp add: count_prefix_def)
  show "count_prefix (CHR ''-'') (map patch_line (filter (\<lambda>c. ctype c \<noteq> Equal) cs)) = count_type Delete cs"
  proof (induction cs)
    case (Cons c cs)
    then show ?case by (cases "ctype c") (simp_all add: count_prefix_def patch_line_def)
  qed (simp add: count_prefix_def)
qed

lemma lcs_len_sym: "lcs_len xs ys = lcs_len ys xs"
  by (induction xs ys rule: lcs_len.induct) (simp_all add: max.commute)

lemma report_changes_counts:
  "\<exists>changes r. backtrack a b = Some changes \<and> report_changes a b n = Some r
     \<and> count_prefix (CHR ''+'') r = count_type Insert changes
     \<and> count_prefix (CHR ''-'') r = count_type Delete changes
     \<and> count_type Equal changes + count_type Delete changes = length a
     \<and> count_type Equal changes + count_type Insert changes = length b
     \<and> count_type Equal changes = lcs_len (rev a) (rev b)"
proof -
  obtain changes where ch: "backtrack a b = Some changes" "replayA changes = a" "replayB changes = b"
    and eq: "count_type Equal changes = computeLCS a b ! length a ! length b"
    using backtrack_equal_count[of a b] by blast
  have r: "report_changes a b n = Some (map patch_line (filter (\<lambda>c. ctype c \<noteq> Equal) changes))"
    by (simp add: report_changes_def diff_hunks_def ch(1) group_hunks_changed)
  have "count_type Equal changes + count_type Delete changes = length a"
    by (subst ch(2)[symmetric]) (simp add: length_replayA)
  moreover have "count_type Equal changes + count_type Insert changes = length b"
    by (subst ch(3)[symmetric]) (simp add: length_replayB)
  ultimately show ?thesis using ch(1) r eq
    by (simp add: count_prefix_patch computeLCS_final)
qed

lemma report_changes_xy: "report_changes [''x'', ''y''] [''y'', ''x''] 3 = Some [''-x'', ''+x'']"
  by code_simp

lemma report_changes_yx: "report_changes [''y'', ''x''] [''x'', ''y''] 3 = Some [''-y'', ''+y'']"
  by code_simp

text \<open>
  C8 as stated fails: for A = ["x", "y"] and B = ["y", "x"] the report of A against B
  changes the line \<open>x\<close> (\<open>-x\<close>, \<open>+x\<close>) and the report of B against A changes the line
  \<open>y\<close> (\<open>-y\<close>, \<open>+y\<close>). Both runs keep the tie-break of line 1061, so they keep
  different common subsequences.
\<close>

theorem C8_counterexample:
  "report_changes [''x'', ''y''] [''y'', ''x''] 3 = Some [''-x'', ''+x'']
   \<and> report_changes [''y'', ''x''] [''x'', ''y''] 3 = Some [''-y'', ''+y'']
   \<and> set [''-y'', ''+y''] \<noteq> set (map swap_prefix [''-x'', ''+x''])"
proof -
  have "set [''-y'', ''+y''] \<noteq> set (map swap_prefix [''-x'', ''+x''])"
  proof
    assume "set [''-y'', ''+y''] = set (map swap_prefix [''-x'', ''+x''])"
    then have "''-y'' \<in> set (map swap_prefix [''-x'', ''+x''])" by auto
    then show False by (simp add: swap_prefix_def)
  qed
  then show ?thesis using report_changes_xy report_changes_yx by blast
qed

text \<open>
  C8, amended. For all line sequences A and B and every context width, the report of B
  against A has as many \<open>+\<close> lines as the report of A against B has \<open>-\<close> lines, and as
  many \<open>-\<close> lines as that one has \<open>+\<close> lines. (The contents of the changed lines need not
  be the same.)
\<close>

theorem C8_swapped_counts:
  "\<exists>rab rba. report_changes A B contextLines = Some rab \<and> report_changes B A contextLines = Some rba
     \<and> count_prefix (CHR ''+'') rba = count_prefix (CHR ''-'') rab
     \<and> count_prefix (CHR ''-'') rba = count_prefix (CHR ''+'') rab"
proof -
  obtain cab rab where ab: "report_changes A B contextLines = Some rab"
     "count_prefix (CHR ''+'') rab = count_type Insert cab"
     "count_prefix (CHR ''-'') rab = count_type Delete cab"
     "count_type Equal cab + count_type Delete cab = length A"
     "count_type Equal cab + count_type Insert cab = length B"
     "count_type Equal cab = lcs_len (rev A) (rev B)"
    using report_changes_counts[of A B contextLines] by blast
  obtain cba rba where ba: "report_changes B A contextLines = Some rba"
     "count_prefix (CHR ''+'') rba = count_type Insert cba"
     "count_prefix (CHR ''-'') rba = count_type Delete cba"
     "count_type Equal cba + count_type Delete cba = length B"
     "count_type Equal cba + count_type Insert cba = length A"
     "count_type Equal cba = lcs_len (rev B) (rev A)"
    using report_changes_counts[of B A contextLines] by blast
  have "count_type Equal cba = count_type Equal cab"
    using ab(6) ba(6) lcs_len_sym[of "rev A" "rev B"] by simp
  then have "count_type Insert cba = count_type Delete cab" "count_type Delete cba = count_type Insert cab"
    using ab(4,5) ba(4,5) by linarith+
  then show ?thesis using ab(1,2,3) ba(1,2,3) by simp
qed

section \<open>The threshold for merging two clusters of changes\<close>

lemma changed_lines_Cons [simp]:
  "changed_lines (l # ls) = (if is_context_line l then changed_lines ls else l # changed_lines ls)"
  by (simp add: changed_lines_def)

text \<open>From a state with an open hunk, the rest of the list extends that hunk and adds hunks
  after it.\<close>

lemma finish_foldl_open:
  assumes "cur \<noteq> []" "list_all (\<lambda>c. ctype c = Equal) pend"
  shows "\<exists>v H2. finish n (foldl (absorb n) (H, cur, pend) post) = H @ [cur @ v] @ H2
           \<and> changed_lines (v @ concat H2) = map patch_line (filter (\<lambda>c. ctype c \<noteq> Equal) post)"
  using assms
proof (induction post arbitrary: H cur pend)
  case Nil
  have "finish n (foldl (absorb n) (H, cur, pend) []) = H @ [cur @ map patch_line (take n pend)] @ []"
    using Nil by simp
  moreover have "changed_lines (map patch_line (take n pend) @ concat []) = map patch_line (filter (\<lambda>c. ctype c \<noteq> Equal) [])"
    using Nil by simp
  ultimately show ?case by blast
next
  case (Cons c post)
  show ?case
  proof (cases "ctype c = Equal")
    case True
    have "list_all (\<lambda>c. ctype c = Equal) (pend @ [c])" using Cons.prems True by simp
    from Cons.IH[OF Cons.prems(1) this, of H] True show ?thesis by simp
  next
    case chg: False
    show ?thesis
    proof (cases "length pend > 2 * n")
      case True
      let ?h = "cur @ map patch_line (take n pend)"
      let ?l = "map patch_line (drop (length pend - n) pend)"
      have a: "absorb n (H, cur, pend) c = (H @ [?h], ?l @ [patch_line c], [])"
        using chg True Cons.prems by simp
      have "?l @ [patch_line c] \<noteq> []" "list_all (\<lambda>c. ctype c = Equal) ([]::change list)" by simp_all
      from Cons.IH[OF this, of "H @ [?h]"] obtain v H2 where
        f: "finish n (foldl (absorb n) (H @ [?h], ?l @ [patch_line c], []) post) = (H @ [?h]) @ [(?l @ [patch_line c]) @ v] @ H2"
        and ch: "changed_lines (v @ concat H2) = map patch_line (filter (\<lambda>c. ctype c \<noteq> Equal) post)"
        by blast
      have "finish n (foldl (absorb n) (H, cur, pend) (c # post))
          = H @ [cur @ map patch_line (take n pend)] @ (((?l @ [patch_line c]) @ v) # H2)"
        using a f by simp
      moreover have "changed_lines (map patch_line (take n pend) @ concat (((?l @ [patch_line c]) @ v) # H2))
          = map patch_line (filter (\<lambda>c. ctype c \<noteq> Equal) (c # post))"
        using ch chg Cons.prems by simp
      ultimately show ?thesis by blast
    next
      case False
      let ?m = "map patch_line pend @ [patch_line c]"
      have a: "absorb n (H, cur, pend) c = (H, cur @ ?m, [])"
        using chg False Cons.prems by simp
      have "cur @ ?m \<noteq> []" "list_all (\<lambda>c. ctype c = Equal) ([]::change list)" by simp_all
      from Cons.IH[OF this, of H] obtain v H2 where
        f: "finish n (foldl (absorb n) (H, cur @ ?m, []) post) = H @ [(cur @ ?m) @ v] @ H2"
        and ch: "changed_lines (v @ concat H2) = map patch_line (filter (\<lambda>c. ctype c \<noteq> Equal) post)"
        by blast
      have "finish n (foldl (absorb n) (H, cur, pend) (c # post)) = H @ [cur @ (?m @ v)] @ H2"
        using a f by simp
      moreover have "changed_lines ((?m @ v) @ concat H2) = map patch_line (filter (\<lambda>c. ctype c \<noteq> Equal) (c # post))"
        using ch chg Cons.prems by simp
      ultimately show ?thesis by blast
    qed
  qed
qed

lemma window_hunks_two_changes:
  assumes c1: "ctype c1 \<noteq> Equal" and c2: "ctype c2 \<noteq> Equal" and eqs: "list_all (\<lambda>e. ctype e = Equal) eqs"
  shows "\<exists>H1 u v H2.
      changed_lines (concat H1 @ u) = map patch_line (filter (\<lambda>c. ctype c \<noteq> Equal) pre)
    \<and> changed_lines (v @ concat H2) = map patch_line (filter (\<lambda>c. ctype c \<noteq> Equal) post)
    \<and> window_hunks n (pre @ [c1] @ eqs @ [c2] @ post) =
        (if length eqs \<le> 2 * n
         then H1 @ [u @ [patch_line c1] @ map patch_line eqs @ [patch_line c2] @ v] @ H2
         else H1 @ [u @ [patch_line c1] @ map patch_line (take n eqs),
                    map patch_line (drop (length eqs - n) eqs) @ [patch_line c2] @ v] @ H2)"
proof -
  obtain H0 cur0 pend0 where s0: "foldl (absorb n) ([], [], []) pre = (H0, cur0, pend0)"
    and p0: "list_all (\<lambda>c. ctype c = Equal) pend0"
    and ch0: "changed_lines (concat H0 @ cur0) = map patch_line (filter (\<lambda>c. ctype c \<noteq> Equal) pre)"
    using foldl_absorb_changed[of "[]" n "[]" "[]" pre] by auto
  obtain H1 u where s1: "absorb n (H0, cur0, pend0) c1 = (H1, u @ [patch_line c1], [])"
    and ch1: "changed_lines (concat H1 @ u) = changed_lines (concat H0 @ cur0)"
    using absorb_change[OF c1 p0, of n H0 cur0] by blast
  have s2: "foldl (absorb n) (H1, u @ [patch_line c1], []) eqs = (H1, u @ [patch_line c1], eqs)"
    using foldl_absorb_equal[OF eqs, of n H1 "u @ [patch_line c1]" "[]"] by simp
  have run: "window_hunks n (pre @ [c1] @ eqs @ [c2] @ post)
      = finish n (foldl (absorb n) (absorb n (H1, u @ [patch_line c1], eqs) c2) post)"
    by (simp only: window_hunks_def foldl_append foldl_Cons foldl_Nil s0 s1 s2)
  show ?thesis
  proof (cases "length eqs \<le> 2 * n")
    case True
    let ?cur = "u @ [patch_line c1] @ map patch_line eqs @ [patch_line c2]"
    have s3: "absorb n (H1, u @ [patch_line c1], eqs) c2 = (H1, ?cur, [])"
      using c2 True by simp
    have "?cur \<noteq> []" "list_all (\<lambda>c. ctype c = Equal) ([]::change list)" by simp_all
    from finish_foldl_open[OF this, of n H1 post] obtain v H2 where
      f: "finish n (foldl (absorb n) (H1, ?cur, []) post) = H1 @ [?cur @ v] @ H2"
      and ch: "changed_lines (v @ concat H2) = map patch_line (filter (\<lambda>c. ctype c \<noteq> Equal) post)"
      by blast
    have "window_hunks n (pre @ [c1] @ eqs @ [c2] @ post)
        = H1 @ [u @ [patch_line c1] @ map patch_line eqs @ [patch_line c2] @ v] @ H2"
      using run s3 f by simp
    then show ?thesis using True ch ch0 ch1 by auto
  next
    case False
    let ?h = "u @ [patch_line c1] @ map patch_line (take n eqs)"
    let ?cur = "map patch_line (drop (length eqs - n) eqs) @ [patch_line c2]"
    have s3: "absorb n (H1, u @ [patch_line c1], eqs) c2 = (H1 @ [?h], ?cur, [])"
      using c2 False by simp
    have "?cur \<noteq> []" "list_all (\<lambda>c. ctype c = Equal) ([]::change list)" by simp_all
    from finish_foldl_open[OF this, of n "H1 @ [?h]" post] obtain v H2 where
      f: "finish n (foldl (absorb n) (H1 @ [?h], ?cur, []) post) = (H1 @ [?h]) @ [?cur @ v] @ H2"
      and ch: "changed_lines (v @ concat H2) = map patch_line (filter (\<lambda>c. ctype c \<noteq> Equal) post)"
      by blast
    have "window_hunks n (pre @ [c1] @ eqs @ [c2] @ post)
        = H1 @ [?h, map patch_line (drop (length eqs - n) eqs) @ [patch_line c2] @ v] @ H2"
      using run s3 f by simp
    then show ?thesis using False ch ch0 ch1 by auto
  qed
qed

lemma hunk_of_change_at:
  "length (changed_lines (concat H1)) \<le> k \<Longrightarrow>
   k < length (changed_lines (concat H1)) + length (changed_lines h) \<Longrightarrow>
   hunk_of_change (H1 @ h # H2) k = length H1"
proof (induction H1 arbitrary: k)
  case Nil
  then show ?case by simp
next
  case (Cons a H1)
  have "hunk_of_change (H1 @ h # H2) (k - length (changed_lines a)) = length H1"
    using Cons.prems by (intro Cons.IH) auto
  then show ?case using Cons.prems by simp
qed

text \<open>
  C4. Take any change list with a record \<open>c1\<close> that is not Equal, then \<open>g\<close> Equal records,
  then a record \<open>c2\<close> that is not Equal (so \<open>c1\<close> ends a cluster of changes and \<open>c2\<close> starts
  the next one), and any context width. If \<open>g \<le> 2 * contextLines\<close> the lines of \<open>c1\<close> and
  \<open>c2\<close> are in one hunk, with the \<open>g\<close> context lines between them; otherwise the hunk of
  \<open>c1\<close> ends with context after \<open>c1\<close> and the next hunk holds \<open>c2\<close>. So the two changes have
  the same hunk index if and only if \<open>g \<le> 2 * contextLines\<close>. The changed lines before
  \<open>c1\<close> and after \<open>c2\<close> are those of the records around, which fixes the position.
\<close>

theorem C4_merge_threshold:
  assumes c1: "ctype c1 \<noteq> Equal" and c2: "ctype c2 \<noteq> Equal"
    and eqs: "list_all (\<lambda>e. ctype e = Equal) eqs"
  shows "(\<exists>H1 u v H2.
      changed_lines (concat H1 @ u) = map patch_line (filter (\<lambda>c. ctype c \<noteq> Equal) pre)
    \<and> changed_lines (v @ concat H2) = map patch_line (filter (\<lambda>c. ctype c \<noteq> Equal) post)
    \<and> map lines (group_hunks (pre @ [c1] @ eqs @ [c2] @ post) contextLines) =
        (if length eqs \<le> 2 * contextLines
         then H1 @ [u @ [patch_line c1] @ map patch_line eqs @ [patch_line c2] @ v] @ H2
         else H1 @ [u @ [patch_line c1] @ map patch_line (take contextLines eqs),
                    map patch_line (drop (length eqs - contextLines) eqs) @ [patch_line c2] @ v] @ H2))
   \<and> (hunk_of_change (map lines (group_hunks (pre @ [c1] @ eqs @ [c2] @ post) contextLines))
          (length (filter (\<lambda>c. ctype c \<noteq> Equal) pre))
        = hunk_of_change (map lines (group_hunks (pre @ [c1] @ eqs @ [c2] @ post) contextLines))
          (length (filter (\<lambda>c. ctype c \<noteq> Equal) pre) + 1)
      \<longleftrightarrow> length eqs \<le> 2 * contextLines)"
proof -
  let ?hs = "map lines (group_hunks (pre @ [c1] @ eqs @ [c2] @ post) contextLines)"
  let ?p = "length (filter (\<lambda>c. ctype c \<noteq> Equal) pre)"
  obtain H1 u v H2 where
    ch1: "changed_lines (concat H1 @ u) = map patch_line (filter (\<lambda>c. ctype c \<noteq> Equal) pre)"
    and ch2: "changed_lines (v @ concat H2) = map patch_line (filter (\<lambda>c. ctype c \<noteq> Equal) post)"
    and hs: "?hs =
        (if length eqs \<le> 2 * contextLines
         then H1 @ [u @ [patch_line c1] @ map patch_line eqs @ [patch_line c2] @ v] @ H2
         else H1 @ [u @ [patch_line c1] @ map patch_line (take contextLines eqs),
                    map patch_line (drop (length eqs - contextLines) eqs) @ [patch_line c2] @ v] @ H2)"
    using window_hunks_two_changes[OF c1 c2 eqs, of pre post contextLines]
    unfolding group_hunks_window by blast
  have p: "?p = length (changed_lines (concat H1)) + length (changed_lines u)"
    using arg_cong[OF ch1, of length] by simp
  have "hunk_of_change ?hs ?p = hunk_of_change ?hs (?p + 1) \<longleftrightarrow> length eqs \<le> 2 * contextLines"
  proof (cases "length eqs \<le> 2 * contextLines")
    case True
    let ?h = "u @ [patch_line c1] @ map patch_line eqs @ [patch_line c2] @ v"
    have h: "?hs = H1 @ ?h # H2" using hs True by simp
    have n: "length (changed_lines ?h) = length (changed_lines u) + 2 + length (changed_lines v)"
      using c1 c2 eqs by simp
    have a: "length (changed_lines (concat H1)) \<le> ?p" "length (changed_lines (concat H1)) \<le> ?p + 1"
      using p by simp_all
    have b: "?p < length (changed_lines (concat H1)) + length (changed_lines ?h)"
      "?p + 1 < length (changed_lines (concat H1)) + length (changed_lines ?h)"
      unfolding n using p by simp_all
    have "hunk_of_change (H1 @ ?h # H2) ?p = length H1"
      by (rule hunk_of_change_at[OF a(1) b(1)])
    moreover have "hunk_of_change (H1 @ ?h # H2) (?p + 1) = length H1"
      by (rule hunk_of_change_at[OF a(2) b(2)])
    ultimately show ?thesis using True h by simp
  next
    case False
    let ?h1 = "u @ [patch_line c1] @ map patch_line (take contextLines eqs)"
    let ?h2 = "map patch_line (drop (length eqs - contextLines) eqs) @ [patch_line c2] @ v"
    have h: "?hs = H1 @ ?h1 # ?h2 # H2" using hs False by simp
    have h': "?hs = (H1 @ [?h1]) @ ?h2 # H2" using hs False by simp
    have n1: "length (changed_lines ?h1) = length (changed_lines u) + 1"
      using c1 eqs by simp
    have n2: "length (changed_lines ?h2) = 1 + length (changed_lines v)"
      using c2 eqs by simp
    have n3: "length (changed_lines (concat (H1 @ [?h1]))) = ?p + 1"
      using c1 eqs p by simp
    have a: "length (changed_lines (concat H1)) \<le> ?p" using p by simp
    have b: "?p < length (changed_lines (concat H1)) + length (changed_lines ?h1)"
      unfolding n1 using p by simp
    have a': "length (changed_lines (concat (H1 @ [?h1]))) \<le> ?p + 1" unfolding n3 by simp
    have b': "?p + 1 < length (changed_lines (concat (H1 @ [?h1]))) + length (changed_lines ?h2)"
      unfolding n3 n2 by simp
    have "hunk_of_change (H1 @ ?h1 # ?h2 # H2) ?p = length H1"
      by (rule hunk_of_change_at[OF a b])
    moreover have "hunk_of_change ((H1 @ [?h1]) @ ?h2 # H2) (?p + 1) = length (H1 @ [?h1])"
      by (rule hunk_of_change_at[OF a' b'])
    ultimately show ?thesis using False h h' by simp
  qed
  with ch1 ch2 hs show ?thesis by blast
qed

lemma example_gap6:
  "length (group_hunks ([] @ [\<lparr>ctype = Delete, lineA = Some 0, lineB = None, ctext = ''a''\<rparr>]
      @ map (\<lambda>k. \<lparr>ctype = Equal, lineA = Some (k + 1), lineB = Some k, ctext = ''u''\<rparr>) [0..<6]
      @ [\<lparr>ctype = Insert, lineA = None, lineB = Some 6, ctext = ''b''\<rparr>] @ []) 3) = 1"
  by code_simp

lemma example_gap7:
  "length (group_hunks ([] @ [\<lparr>ctype = Delete, lineA = Some 0, lineB = None, ctext = ''a''\<rparr>]
      @ map (\<lambda>k. \<lparr>ctype = Equal, lineA = Some (k + 1), lineB = Some k, ctext = ''u''\<rparr>) [0..<7]
      @ [\<lparr>ctype = Insert, lineA = None, lineB = Some 7, ctext = ''b''\<rparr>] @ []) 3) = 2"
  by code_simp

theorem C4_merge_threshold_witness:
  "ctype \<lparr>ctype = Delete, lineA = Some 0, lineB = None, ctext = ''a''\<rparr> \<noteq> Equal
   \<and> ctype \<lparr>ctype = Insert, lineA = None, lineB = Some 6, ctext = ''b''\<rparr> \<noteq> Equal
   \<and> list_all (\<lambda>e. ctype e = Equal)
        (map (\<lambda>k. \<lparr>ctype = Equal, lineA = Some (k + 1), lineB = Some k, ctext = ''u''\<rparr>) [0..<6])
   \<and> hunk_of_change (map lines (group_hunks ([] @ [\<lparr>ctype = Delete, lineA = Some 0, lineB = None, ctext = ''a''\<rparr>]
        @ map (\<lambda>k. \<lparr>ctype = Equal, lineA = Some (k + 1), lineB = Some k, ctext = ''u''\<rparr>) [0..<6]
        @ [\<lparr>ctype = Insert, lineA = None, lineB = Some 6, ctext = ''b''\<rparr>] @ []) 3)) 0
     = hunk_of_change (map lines (group_hunks ([] @ [\<lparr>ctype = Delete, lineA = Some 0, lineB = None, ctext = ''a''\<rparr>]
        @ map (\<lambda>k. \<lparr>ctype = Equal, lineA = Some (k + 1), lineB = Some k, ctext = ''u''\<rparr>) [0..<6]
        @ [\<lparr>ctype = Insert, lineA = None, lineB = Some 6, ctext = ''b''\<rparr>] @ []) 3)) 1
   \<and> hunk_of_change (map lines (group_hunks ([] @ [\<lparr>ctype = Delete, lineA = Some 0, lineB = None, ctext = ''a''\<rparr>]
        @ map (\<lambda>k. \<lparr>ctype = Equal, lineA = Some (k + 1), lineB = Some k, ctext = ''u''\<rparr>) [0..<7]
        @ [\<lparr>ctype = Insert, lineA = None, lineB = Some 7, ctext = ''b''\<rparr>] @ []) 3)) 0
     \<noteq> hunk_of_change (map lines (group_hunks ([] @ [\<lparr>ctype = Delete, lineA = Some 0, lineB = None, ctext = ''a''\<rparr>]
        @ map (\<lambda>k. \<lparr>ctype = Equal, lineA = Some (k + 1), lineB = Some k, ctext = ''u''\<rparr>) [0..<7]
        @ [\<lparr>ctype = Insert, lineA = None, lineB = Some 7, ctext = ''b''\<rparr>] @ []) 3)) 1
   \<and> length (group_hunks ([] @ [\<lparr>ctype = Delete, lineA = Some 0, lineB = None, ctext = ''a''\<rparr>]
      @ map (\<lambda>k. \<lparr>ctype = Equal, lineA = Some (k + 1), lineB = Some k, ctext = ''u''\<rparr>) [0..<6]
      @ [\<lparr>ctype = Insert, lineA = None, lineB = Some 6, ctext = ''b''\<rparr>] @ []) 3) = 1
   \<and> length (group_hunks ([] @ [\<lparr>ctype = Delete, lineA = Some 0, lineB = None, ctext = ''a''\<rparr>]
      @ map (\<lambda>k. \<lparr>ctype = Equal, lineA = Some (k + 1), lineB = Some k, ctext = ''u''\<rparr>) [0..<7]
      @ [\<lparr>ctype = Insert, lineA = None, lineB = Some 7, ctext = ''b''\<rparr>] @ []) 3) = 2"
proof -
  have e6: "list_all (\<lambda>e. ctype e = Equal)
        (map (\<lambda>k. \<lparr>ctype = Equal, lineA = Some (k + 1), lineB = Some k, ctext = ''u''\<rparr>) [0..<6])"
    and e7: "list_all (\<lambda>e. ctype e = Equal)
        (map (\<lambda>k. \<lparr>ctype = Equal, lineA = Some (k + 1), lineB = Some k, ctext = ''u''\<rparr>) [0..<7])"
    by (simp_all add: list_all_iff)
  have d: "ctype \<lparr>ctype = Delete, lineA = Some 0, lineB = None, ctext = ''a''\<rparr> \<noteq> Equal" by simp
  have i6: "ctype \<lparr>ctype = Insert, lineA = None, lineB = Some 6, ctext = ''b''\<rparr> \<noteq> Equal"
    and i7: "ctype \<lparr>ctype = Insert, lineA = None, lineB = Some 7, ctext = ''b''\<rparr> \<noteq> Equal" by simp_all
  note t6 = conjunct2[OF C4_merge_threshold[OF d i6 e6, of "[]" "[]" 3]]
  note t7 = conjunct2[OF C4_merge_threshold[OF d i7 e7, of "[]" "[]" 3]]
  have g6: "hunk_of_change (map lines (group_hunks ([] @ [\<lparr>ctype = Delete, lineA = Some 0, lineB = None, ctext = ''a''\<rparr>]
        @ map (\<lambda>k. \<lparr>ctype = Equal, lineA = Some (k + 1), lineB = Some k, ctext = ''u''\<rparr>) [0..<6]
        @ [\<lparr>ctype = Insert, lineA = None, lineB = Some 6, ctext = ''b''\<rparr>] @ []) 3)) 0
     = hunk_of_change (map lines (group_hunks ([] @ [\<lparr>ctype = Delete, lineA = Some 0, lineB = None, ctext = ''a''\<rparr>]
        @ map (\<lambda>k. \<lparr>ctype = Equal, lineA = Some (k + 1), lineB = Some k, ctext = ''u''\<rparr>) [0..<6]
        @ [\<lparr>ctype = Insert, lineA = None, lineB = Some 6, ctext = ''b''\<rparr>] @ []) 3)) 1"
    using t6 by (simp del: upt_Suc append_Nil append_Nil2 map_append list.map)
  have g7: "hunk_of_change (map lines (group_hunks ([] @ [\<lparr>ctype = Delete, lineA = Some 0, lineB = None, ctext = ''a''\<rparr>]
        @ map (\<lambda>k. \<lparr>ctype = Equal, lineA = Some (k + 1), lineB = Some k, ctext = ''u''\<rparr>) [0..<7]
        @ [\<lparr>ctype = Insert, lineA = None, lineB = Some 7, ctext = ''b''\<rparr>] @ []) 3)) 0
     \<noteq> hunk_of_change (map lines (group_hunks ([] @ [\<lparr>ctype = Delete, lineA = Some 0, lineB = None, ctext = ''a''\<rparr>]
        @ map (\<lambda>k. \<lparr>ctype = Equal, lineA = Some (k + 1), lineB = Some k, ctext = ''u''\<rparr>) [0..<7]
        @ [\<lparr>ctype = Insert, lineA = None, lineB = Some 7, ctext = ''b''\<rparr>] @ []) 3)) 1"
    using t7 by (simp del: upt_Suc append_Nil append_Nil2 map_append list.map)
  from d i6 e6 g6 g7 example_gap6 example_gap7 show ?thesis by blast
qed

section \<open>The context of a hunk\<close>

lemma takeWhile_context_prefix:
  "list_all (\<lambda>c. ctype c = Equal) xs \<Longrightarrow> ctype b \<noteq> Equal \<Longrightarrow>
   takeWhile is_context_line (map patch_line xs @ patch_line b # rest) = map patch_line xs"
  by (induction xs) simp_all

lemma hunk_window_context:
  assumes "hunk_window n pre le body te post ls"
  shows "leading_context ls = min n (length le)" and "trailing_context ls = min n (length te)"
proof -
  from assms have le: "list_all (\<lambda>c. ctype c = Equal) le" and te: "list_all (\<lambda>c. ctype c = Equal) te"
    and body: "body \<noteq> []" "ctype (hd body) \<noteq> Equal" "ctype (last body) \<noteq> Equal"
    and ls: "ls = map patch_line (drop (length le - n) le) @ map patch_line body @ map patch_line (take n te)"
    by (simp_all add: hunk_window_def)
  obtain b bs where b: "body = b # bs" "ctype b \<noteq> Equal"
    using body by (cases body) auto
  obtain e es where e: "body = es @ [e]" "ctype e \<noteq> Equal"
    using body by (cases body rule: rev_cases) auto
  have l1: "ls = map patch_line (drop (length le - n) le) @ patch_line b # (map patch_line bs @ map patch_line (take n te))"
    unfolding ls b(1) by simp
  have "takeWhile is_context_line ls = map patch_line (drop (length le - n) le)"
    unfolding l1 by (rule takeWhile_context_prefix) (simp_all add: le b(2))
  then show "leading_context ls = min n (length le)"
    unfolding leading_context_def by (simp add: min_def)
  have l2: "rev ls = map patch_line (rev (take n te)) @ patch_line e # (rev (map patch_line es) @ rev (map patch_line (drop (length le - n) le)))"
    unfolding ls e(1) by (simp add: rev_map)
  have "list_all (\<lambda>c. ctype c = Equal) (rev (take n te))" using te by simp
  then have "takeWhile is_context_line (rev ls) = map patch_line (rev (take n te))"
    unfolding l2 using e(2) by (rule takeWhile_context_prefix)
  then show "trailing_context ls = min n (length te)"
    unfolding trailing_context_def by (simp add: min_def)
qed

lemma closed_ok_Nil [simp]: "closed_ok n xs []"
  by (simp add: closed_ok_def)

lemma hunk_window_post:
  "hunk_window n pre le body te post ls \<Longrightarrow> post \<noteq> [] \<Longrightarrow> hunk_window n pre le body te (post @ [c]) ls"
  by (cases post) (simp_all add: hunk_window_def)

lemma closed_okD:
  assumes "closed_ok n xs H" "i < length H"
  obtains pre le body te post where
    "xs = pre @ le @ body @ te @ post" "post \<noteq> []" "hunk_window n pre le body te post (H ! i)"
    "length (filter (\<lambda>c. ctype c \<noteq> Equal) pre) = length (changed_lines (concat (take i H)))"
proof -
  have "\<exists>pre le body te post.
         xs = pre @ le @ body @ te @ post \<and> post \<noteq> [] \<and> hunk_window n pre le body te post (H ! i)
       \<and> length (filter (\<lambda>c. ctype c \<noteq> Equal) pre) = length (changed_lines (concat (take i H)))"
    using assms(1)[unfolded closed_ok_def, rule_format, OF assms(2)] .
  then show thesis by (elim exE conjE) (rule that)
qed

lemma closed_okI:
  assumes "\<And>i. i < length H \<Longrightarrow> \<exists>pre le body te post.
         xs = pre @ le @ body @ te @ post \<and> post \<noteq> [] \<and> hunk_window n pre le body te post (H ! i)
       \<and> length (filter (\<lambda>c. ctype c \<noteq> Equal) pre) = length (changed_lines (concat (take i H)))"
  shows "closed_ok n xs H"
  unfolding closed_ok_def by (intro allI impI) (rule assms)

lemma closed_ok_record:
  assumes "closed_ok n xs H"
  shows "closed_ok n (xs @ [c]) H"
proof (rule closed_okI)
  fix i assume "i < length H"
  with assms obtain pre le body te post where
    w: "xs = pre @ le @ body @ te @ post" "post \<noteq> []" "hunk_window n pre le body te post (H ! i)"
       "length (filter (\<lambda>c. ctype c \<noteq> Equal) pre) = length (changed_lines (concat (take i H)))"
    by (rule closed_okD)
  have "xs @ [c] = pre @ le @ body @ te @ (post @ [c]) \<and> post @ [c] \<noteq> []
      \<and> hunk_window n pre le body te (post @ [c]) (H ! i)
      \<and> length (filter (\<lambda>c. ctype c \<noteq> Equal) pre) = length (changed_lines (concat (take i H)))"
    using w by (simp add: hunk_window_post)
  then show "\<exists>pre le body te post.
         xs @ [c] = pre @ le @ body @ te @ post \<and> post \<noteq> [] \<and> hunk_window n pre le body te post (H ! i)
       \<and> length (filter (\<lambda>c. ctype c \<noteq> Equal) pre) = length (changed_lines (concat (take i H)))"
    by (intro exI)
qed

lemma closed_ok_hunk:
  assumes "closed_ok n xs H" and "xs = pre @ le @ body @ te @ post" "post \<noteq> []"
    "hunk_window n pre le body te post h"
    "length (filter (\<lambda>c. ctype c \<noteq> Equal) pre) = length (changed_lines (concat H))"
  shows "closed_ok n xs (H @ [h])"
proof (rule closed_okI)
  fix i assume i: "i < length (H @ [h])"
  show "\<exists>pre le body te post.
         xs = pre @ le @ body @ te @ post \<and> post \<noteq> [] \<and> hunk_window n pre le body te post ((H @ [h]) ! i)
       \<and> length (filter (\<lambda>c. ctype c \<noteq> Equal) pre) = length (changed_lines (concat (take i (H @ [h]))))"
  proof (cases "i < length H")
    case True
    with assms(1) obtain pre' le' body' te' post' where
      w: "xs = pre' @ le' @ body' @ te' @ post'" "post' \<noteq> []" "hunk_window n pre' le' body' te' post' (H ! i)"
      "length (filter (\<lambda>c. ctype c \<noteq> Equal) pre') = length (changed_lines (concat (take i H)))"
      by (rule closed_okD)
    have "xs = pre' @ le' @ body' @ te' @ post' \<and> post' \<noteq> []
       \<and> hunk_window n pre' le' body' te' post' ((H @ [h]) ! i)
       \<and> length (filter (\<lambda>c. ctype c \<noteq> Equal) pre') = length (changed_lines (concat (take i (H @ [h]))))"
      using w True by (simp add: nth_append)
    then show ?thesis by (intro exI)
  next
    case False
    with i have "i = length H" by simp
    then have "xs = pre @ le @ body @ te @ post \<and> post \<noteq> []
       \<and> hunk_window n pre le body te post ((H @ [h]) ! i)
       \<and> length (filter (\<lambda>c. ctype c \<noteq> Equal) pre) = length (changed_lines (concat (take i (H @ [h]))))"
      using assms(2-5) by simp
    then show ?thesis by (intro exI)
  qed
qed

lemma hunk_window_open:
  "hunk_window n pre le body [] [] cur \<longleftrightarrow>
     list_all (\<lambda>c. ctype c = Equal) le \<and> (pre = [] \<or> ctype (last pre) \<noteq> Equal)
   \<and> body \<noteq> [] \<and> ctype (hd body) \<noteq> Equal \<and> ctype (last body) \<noteq> Equal
   \<and> cur = map patch_line (drop (length le - n) le) @ map patch_line body"
  by (simp add: hunk_window_def)

lemma hunk_window_close:
  assumes "hunk_window n pre le body [] [] cur" "list_all (\<lambda>c. ctype c = Equal) te"
    "post = [] \<or> ctype (hd post) \<noteq> Equal"
  shows "hunk_window n pre le body te post (cur @ map patch_line (take n te))"
  using assms by (simp add: hunk_window_def)

lemma filter_all_equal_Nil:
  "list_all (\<lambda>c. ctype c = Equal) xs \<Longrightarrow> filter (\<lambda>c. ctype c \<noteq> Equal) xs = []"
  by (induction xs) simp_all

lemma hunk_window_changes:
  assumes "hunk_window n pre le body te post ls"
  shows "length (changed_lines ls) = length (filter (\<lambda>c. ctype c \<noteq> Equal) body)"
proof -
  from assms have le: "list_all (\<lambda>c. ctype c = Equal) le" and te: "list_all (\<lambda>c. ctype c = Equal) te"
    and ls: "ls = map patch_line (drop (length le - n) le) @ map patch_line body @ map patch_line (take n te)"
    by (simp_all add: hunk_window_def)
  show ?thesis unfolding ls using le te by (simp add: changed_lines_patch filter_all_equal_Nil)
qed

lemma open_ok_step:
  assumes inv: "open_ok n xs st"
  shows "open_ok n (xs @ [c]) (absorb n st c)"
proof -
  obtain H cur pend where st: "st = (H, cur, pend)" by (cases st) auto
  from inv st have eq: "list_all (\<lambda>c. ctype c = Equal) pend" and cl: "closed_ok n xs H"
    by (simp_all add: open_ok_def)
  have cl': "closed_ok n (xs @ [c]) H" using cl by (rule closed_ok_record)
  show ?thesis
  proof (cases "cur = []")
    case True
    with inv st have H: "H = []" and xs: "xs = pend" by (simp_all add: open_ok_def)
    show ?thesis
    proof (cases "ctype c = Equal")
      case True
      then show ?thesis using \<open>cur = []\<close> st H xs eq by (simp add: open_ok_def)
    next
      case False
      let ?cur = "map patch_line (drop (length pend - n) pend) @ [patch_line c]"
      have a: "absorb n st c = ([], ?cur, [])" using False \<open>cur = []\<close> st H by simp
      have w: "xs @ [c] = [] @ pend @ [c] @ [] \<and> hunk_window n [] pend [c] [] [] ?cur
          \<and> length (filter (\<lambda>c. ctype c \<noteq> Equal) ([]::change list)) = length (changed_lines (concat ([]::string list list)))"
        using xs eq False by (simp add: hunk_window_open)
      have "\<exists>pre le body. xs @ [c] = pre @ le @ body @ [] \<and> hunk_window n pre le body [] [] ?cur
          \<and> length (filter (\<lambda>c. ctype c \<noteq> Equal) pre) = length (changed_lines (concat ([]::string list list)))"
        using w by (intro exI)
      then show ?thesis unfolding a open_ok_def by simp
    qed
  next
    case opn: False
    with inv st have "\<exists>pre le body. xs = pre @ le @ body @ pend \<and> hunk_window n pre le body [] [] cur
        \<and> length (filter (\<lambda>c. ctype c \<noteq> Equal) pre) = length (changed_lines (concat H))"
      by (simp add: open_ok_def)
    then obtain pre le body where xs: "xs = pre @ le @ body @ pend"
      and w: "hunk_window n pre le body [] [] cur"
      and pin: "length (filter (\<lambda>c. ctype c \<noteq> Equal) pre) = length (changed_lines (concat H))"
      by (elim exE conjE)
    from w have body: "body \<noteq> []" "ctype (hd body) \<noteq> Equal" "ctype (last body) \<noteq> Equal"
      and le: "list_all (\<lambda>c. ctype c = Equal) le"
      and curd: "cur = map patch_line (drop (length le - n) le) @ map patch_line body"
      by (simp_all add: hunk_window_open)
    show ?thesis
    proof (cases "ctype c = Equal")
      case True
      have a: "absorb n st c = (H, cur, pend @ [c])" using True st by simp
      have "xs @ [c] = pre @ le @ body @ (pend @ [c]) \<and> hunk_window n pre le body [] [] cur
          \<and> length (filter (\<lambda>c. ctype c \<noteq> Equal) pre) = length (changed_lines (concat H))"
        using xs w pin by simp
      then have "\<exists>pre le body. xs @ [c] = pre @ le @ body @ (pend @ [c]) \<and> hunk_window n pre le body [] [] cur
          \<and> length (filter (\<lambda>c. ctype c \<noteq> Equal) pre) = length (changed_lines (concat H))"
        by (intro exI)
      then show ?thesis unfolding a open_ok_def using opn eq True cl' by simp
    next
      case chg: False
      show ?thesis
      proof (cases "length pend > 2 * n")
        case True
        let ?h = "cur @ map patch_line (take n pend)"
        let ?cur = "map patch_line (drop (length pend - n) pend) @ [patch_line c]"
        have a: "absorb n st c = (H @ [?h], ?cur, [])" using chg opn True st by simp
        have hw: "hunk_window n pre le body pend [c] ?h"
          using hunk_window_close[OF w eq, of "[c]"] chg by simp
        have c1: "closed_ok n (xs @ [c]) (H @ [?h])"
        proof (rule closed_ok_hunk[OF cl' _ _ hw pin])
          show "xs @ [c] = pre @ le @ body @ pend @ [c]" using xs by simp
          show "[c] \<noteq> []" by simp
        qed
        have last: "last (pre @ le @ body) = last body" using body(1) by simp
        have pin': "length (filter (\<lambda>c. ctype c \<noteq> Equal) (pre @ le @ body)) = length (changed_lines (concat (H @ [?h])))"
          using pin hunk_window_changes[OF hw] filter_all_equal_Nil[OF le] by simp
        have "xs @ [c] = (pre @ le @ body) @ pend @ [c] @ [] \<and> hunk_window n (pre @ le @ body) pend [c] [] [] ?cur
            \<and> length (filter (\<lambda>c. ctype c \<noteq> Equal) (pre @ le @ body)) = length (changed_lines (concat (H @ [?h])))"
          using xs eq chg body(3) last pin' by (simp add: hunk_window_open del: last_append)
        then have "\<exists>pre le body. xs @ [c] = pre @ le @ body @ [] \<and> hunk_window n pre le body [] [] ?cur
            \<and> length (filter (\<lambda>c. ctype c \<noteq> Equal) pre) = length (changed_lines (concat (H @ [?h])))"
          by (intro exI)
        then show ?thesis unfolding a open_ok_def using c1 by simp
      next
        case False
        let ?cur = "cur @ map patch_line pend @ [patch_line c]"
        have a: "absorb n st c = (H, ?cur, [])" using chg opn False st by simp
        have hd: "hd (body @ pend @ [c]) = hd body" using body(1) by simp
        have "xs @ [c] = pre @ le @ (body @ pend @ [c]) @ [] \<and> hunk_window n pre le (body @ pend @ [c]) [] [] ?cur
            \<and> length (filter (\<lambda>c. ctype c \<noteq> Equal) pre) = length (changed_lines (concat H))"
          using xs w pin chg hd by (simp add: hunk_window_open del: hd_append2 hd_append)
        then have "\<exists>pre le body. xs @ [c] = pre @ le @ body @ [] \<and> hunk_window n pre le body [] [] ?cur
            \<and> length (filter (\<lambda>c. ctype c \<noteq> Equal) pre) = length (changed_lines (concat H))"
          by (intro exI)
        then show ?thesis unfolding a open_ok_def using cl' by simp
      qed
    qed
  qed
qed

lemma open_ok_foldl: "open_ok n cs (foldl (absorb n) ([], [], []) cs)"
proof (induction cs rule: rev_induct)
  case Nil
  show ?case by (simp add: open_ok_def)
next
  case (snoc c cs)
  then show ?case using open_ok_step[of n cs _ c] by simp
qed

lemma window_hunks_windows:
  assumes i: "i < length (window_hunks n cs)"
  shows "\<exists>pre le body te post. cs = pre @ le @ body @ te @ post
     \<and> hunk_window n pre le body te post (window_hunks n cs ! i)
     \<and> length (filter (\<lambda>c. ctype c \<noteq> Equal) pre) = length (changed_lines (concat (take i (window_hunks n cs))))"
proof -
  obtain H cur pend where st: "foldl (absorb n) ([], [], []) cs = (H, cur, pend)"
    by (cases "foldl (absorb n) ([], [], []) cs") auto
  have inv: "open_ok n cs (H, cur, pend)" using open_ok_foldl[of n cs] st by simp
  then have eq: "list_all (\<lambda>c. ctype c = Equal) pend" and cl: "closed_ok n cs H"
    by (simp_all add: open_ok_def)
  show ?thesis
  proof (cases "cur = []")
    case True
    with inv have "H = []" by (simp add: open_ok_def)
    with True st i show ?thesis by (simp add: window_hunks_def)
  next
    case opn: False
    let ?h = "cur @ map patch_line (take n pend)"
    have wh: "window_hunks n cs = H @ [?h]" using st opn by (simp add: window_hunks_def)
    show ?thesis
    proof (cases "i < length H")
      case True
      from cl True obtain pre le body te post where
        w: "cs = pre @ le @ body @ te @ post" "post \<noteq> []" "hunk_window n pre le body te post (H ! i)"
        "length (filter (\<lambda>c. ctype c \<noteq> Equal) pre) = length (changed_lines (concat (take i H)))"
        by (rule closed_okD)
      have "cs = pre @ le @ body @ te @ post \<and> hunk_window n pre le body te post (window_hunks n cs ! i)
         \<and> length (filter (\<lambda>c. ctype c \<noteq> Equal) pre) = length (changed_lines (concat (take i (window_hunks n cs))))"
        unfolding wh using w True by (simp add: nth_append)
      then show ?thesis by (intro exI)
    next
      case False
      with i wh have ih: "i = length H" by simp
      from inv opn have "\<exists>pre le body. cs = pre @ le @ body @ pend \<and> hunk_window n pre le body [] [] cur
          \<and> length (filter (\<lambda>c. ctype c \<noteq> Equal) pre) = length (changed_lines (concat H))"
        by (simp add: open_ok_def)
      then obtain pre le body where xs: "cs = pre @ le @ body @ pend"
        and w: "hunk_window n pre le body [] [] cur"
        and pin: "length (filter (\<lambda>c. ctype c \<noteq> Equal) pre) = length (changed_lines (concat H))"
        by (elim exE conjE)
      have hw: "hunk_window n pre le body pend [] ?h"
        using hunk_window_close[OF w eq, of "[]"] by simp
      have "cs = pre @ le @ body @ pend @ [] \<and> hunk_window n pre le body pend [] (window_hunks n cs ! i)
         \<and> length (filter (\<lambda>c. ctype c \<noteq> Equal) pre) = length (changed_lines (concat (take i (window_hunks n cs))))"
        unfolding wh ih using xs hw pin by simp
      then show ?thesis by (intro exI)
    qed
  qed
qed

lemma group_hunks_windows:
  assumes i: "i < length (group_hunks cs n)"
  shows "\<exists>pre le body te post. cs = pre @ le @ body @ te @ post
     \<and> hunk_window n pre le body te post (lines (group_hunks cs n ! i))
     \<and> length (filter (\<lambda>c. ctype c \<noteq> Equal) pre)
         = length (changed_lines (concat (map lines (take i (group_hunks cs n)))))
     \<and> leading_context (lines (group_hunks cs n ! i)) = min n (length le)
     \<and> trailing_context (lines (group_hunks cs n ! i)) = min n (length te)"
proof -
  have len: "length (window_hunks n cs) = length (group_hunks cs n)"
    using arg_cong[OF group_hunks_window[of cs n], of length] by simp
  have nth: "window_hunks n cs ! i = lines (group_hunks cs n ! i)"
    using i by (simp add: group_hunks_window[symmetric])
  have tk: "take i (window_hunks n cs) = map lines (take i (group_hunks cs n))"
    by (simp add: group_hunks_window[symmetric] take_map)
  from i len have "i < length (window_hunks n cs)" by simp
  from window_hunks_windows[OF this] obtain pre le body te post where
    w: "cs = pre @ le @ body @ te @ post"
       "hunk_window n pre le body te post (lines (group_hunks cs n ! i))"
       "length (filter (\<lambda>c. ctype c \<noteq> Equal) pre)
         = length (changed_lines (concat (map lines (take i (group_hunks cs n)))))"
    unfolding nth tk by (elim exE conjE)
  have "cs = pre @ le @ body @ te @ post
     \<and> hunk_window n pre le body te post (lines (group_hunks cs n ! i))
     \<and> length (filter (\<lambda>c. ctype c \<noteq> Equal) pre)
         = length (changed_lines (concat (map lines (take i (group_hunks cs n)))))
     \<and> leading_context (lines (group_hunks cs n ! i)) = min n (length le)
     \<and> trailing_context (lines (group_hunks cs n ! i)) = min n (length te)"
    using w hunk_window_context[OF w(2)] by simp
  then show ?thesis by (intro exI)
qed

text \<open>
  C5. For all line sequences A and B and every context width, every hunk that
  \<^verbatim>\<open>computeUnifiedDiff\<close> builds is a window of the backtracked change list: the list is
  \<open>pre @ le @ body @ te @ post\<close>, where \<open>body\<close> runs from the first to the last change of the
  hunk, \<open>le\<close> are all the Equal records immediately before the first change and \<open>te\<close> all
  the Equal records immediately after the last one; the changes in \<open>pre\<close> are those printed
  by the hunks before. The hunk has \<open>min contextLines (length le)\<close> leading context lines
  and \<open>min contextLines (length te)\<close> trailing context lines.
\<close>

theorem C5_context_bounds:
  "\<exists>changes hs. backtrack A B = Some changes \<and> diff_hunks A B contextLines = Some hs
     \<and> (\<forall>i < length hs. \<exists>pre le body te post.
           changes = pre @ le @ body @ te @ post
         \<and> hunk_window contextLines pre le body te post (lines (hs ! i))
         \<and> length (filter (\<lambda>c. ctype c \<noteq> Equal) pre)
             = length (changed_lines (concat (map lines (take i hs))))
         \<and> leading_context (lines (hs ! i)) = min contextLines (length le)
         \<and> trailing_context (lines (hs ! i)) = min contextLines (length te))"
proof -
  obtain changes where b: "backtrack A B = Some changes"
    using backtrack_replay[of A B] by blast
  have d: "diff_hunks A B contextLines = Some (group_hunks changes contextLines)"
    by (simp add: diff_hunks_def b)
  have "backtrack A B = Some changes \<and> diff_hunks A B contextLines = Some (group_hunks changes contextLines)
     \<and> (\<forall>i < length (group_hunks changes contextLines). \<exists>pre le body te post.
           changes = pre @ le @ body @ te @ post
         \<and> hunk_window contextLines pre le body te post (lines (group_hunks changes contextLines ! i))
         \<and> length (filter (\<lambda>c. ctype c \<noteq> Equal) pre)
             = length (changed_lines (concat (map lines (take i (group_hunks changes contextLines)))))
         \<and> leading_context (lines (group_hunks changes contextLines ! i)) = min contextLines (length le)
         \<and> trailing_context (lines (group_hunks changes contextLines ! i)) = min contextLines (length te))"
    using b d group_hunks_windows[of _ changes contextLines] by (intro conjI allI impI)
  then show ?thesis by (intro exI)
qed

lemma backtrack_five:
  "backtrack [''l1'', ''l2'', ''l3'', ''l4'', ''l5'', ''l6'', ''l7'', ''l8'', ''l9'', ''l10'']
             [''l1'', ''l2'', ''l3'', ''l4'', ''five'', ''l6'', ''l7'', ''l8'', ''l9'', ''l10''] =
   Some [\<lparr>ctype = Equal, lineA = Some 0, lineB = Some 0, ctext = ''l1''\<rparr>,
         \<lparr>ctype = Equal, lineA = Some 1, lineB = Some 1, ctext = ''l2''\<rparr>,
         \<lparr>ctype = Equal, lineA = Some 2, lineB = Some 2, ctext = ''l3''\<rparr>,
         \<lparr>ctype = Equal, lineA = Some 3, lineB = Some 3, ctext = ''l4''\<rparr>,
         \<lparr>ctype = Delete, lineA = Some 4, lineB = None, ctext = ''l5''\<rparr>,
         \<lparr>ctype = Insert, lineA = None, lineB = Some 4, ctext = ''five''\<rparr>,
         \<lparr>ctype = Equal, lineA = Some 5, lineB = Some 5, ctext = ''l6''\<rparr>,
         \<lparr>ctype = Equal, lineA = Some 6, lineB = Some 6, ctext = ''l7''\<rparr>,
         \<lparr>ctype = Equal, lineA = Some 7, lineB = Some 7, ctext = ''l8''\<rparr>,
         \<lparr>ctype = Equal, lineA = Some 8, lineB = Some 8, ctext = ''l9''\<rparr>,
         \<lparr>ctype = Equal, lineA = Some 9, lineB = Some 9, ctext = ''l10''\<rparr>]"
  by code_simp

lemma diff_hunks_five:
  "diff_hunks [''l1'', ''l2'', ''l3'', ''l4'', ''l5'', ''l6'', ''l7'', ''l8'', ''l9'', ''l10'']
             [''l1'', ''l2'', ''l3'', ''l4'', ''five'', ''l6'', ''l7'', ''l8'', ''l9'', ''l10''] 3 =
   Some [\<lparr>startA = 1, countA = 7, startB = 1, countB = 7,
           lines = ['' l2'', '' l3'', '' l4'', ''-l5'', ''+five'', '' l6'', '' l7'', '' l8'']\<rparr>]"
  by code_simp

lemma context_five:
  "leading_context ['' l2'', '' l3'', '' l4'', ''-l5'', ''+five'', '' l6'', '' l7'', '' l8''] = 3"
  "trailing_context ['' l2'', '' l3'', '' l4'', ''-l5'', ''+five'', '' l6'', '' l7'', '' l8''] = 3"
  by (simp_all add: leading_context_def trailing_context_def is_context_line_def)

theorem C5_context_bounds_witness:
  "diff_hunks [''l1'', ''l2'', ''l3'', ''l4'', ''l5'', ''l6'', ''l7'', ''l8'', ''l9'', ''l10'']
             [''l1'', ''l2'', ''l3'', ''l4'', ''five'', ''l6'', ''l7'', ''l8'', ''l9'', ''l10''] 3 =
     Some [\<lparr>startA = 1, countA = 7, startB = 1, countB = 7,
             lines = ['' l2'', '' l3'', '' l4'', ''-l5'', ''+five'', '' l6'', '' l7'', '' l8'']\<rparr>]
   \<and> (\<exists>le te. 3 = min 3 (length (le :: change list)) \<and> 3 = min 3 (length (te :: change list))
        \<and> (\<exists>pre body post.
         [\<lparr>ctype = Equal, lineA = Some 0, lineB = Some 0, ctext = ''l1''\<rparr>,
         \<lparr>ctype = Equal, lineA = Some 1, lineB = Some 1, ctext = ''l2''\<rparr>,
         \<lparr>ctype = Equal, lineA = Some 2, lineB = Some 2, ctext = ''l3''\<rparr>,
         \<lparr>ctype = Equal, lineA = Some 3, lineB = Some 3, ctext = ''l4''\<rparr>,
         \<lparr>ctype = Delete, lineA = Some 4, lineB = None, ctext = ''l5''\<rparr>,
         \<lparr>ctype = Insert, lineA = None, lineB = Some 4, ctext = ''five''\<rparr>,
         \<lparr>ctype = Equal, lineA = Some 5, lineB = Some 5, ctext = ''l6''\<rparr>,
         \<lparr>ctype = Equal, lineA = Some 6, lineB = Some 6, ctext = ''l7''\<rparr>,
         \<lparr>ctype = Equal, lineA = Some 7, lineB = Some 7, ctext = ''l8''\<rparr>,
         \<lparr>ctype = Equal, lineA = Some 8, lineB = Some 8, ctext = ''l9''\<rparr>,
         \<lparr>ctype = Equal, lineA = Some 9, lineB = Some 9, ctext = ''l10''\<rparr>] = pre @ le @ body @ te @ post
         \<and> hunk_window 3 pre le body te post ['' l2'', '' l3'', '' l4'', ''-l5'', ''+five'', '' l6'', '' l7'', '' l8'']))"
proof -
  let ?A = "[''l1'', ''l2'', ''l3'', ''l4'', ''l5'', ''l6'', ''l7'', ''l8'', ''l9'', ''l10'']"
  let ?B = "[''l1'', ''l2'', ''l3'', ''l4'', ''five'', ''l6'', ''l7'', ''l8'', ''l9'', ''l10'']"
  let ?h = "\<lparr>startA = 1, countA = 7, startB = 1, countB = 7,
             lines = ['' l2'', '' l3'', '' l4'', ''-l5'', ''+five'', '' l6'', '' l7'', '' l8'']\<rparr>"
  from C5_context_bounds[of ?A ?B 3] obtain changes hs where
    b: "backtrack ?A ?B = Some changes" and d: "diff_hunks ?A ?B 3 = Some hs"
    and w: "\<forall>i < length hs. \<exists>pre le body te post.
           changes = pre @ le @ body @ te @ post
         \<and> hunk_window 3 pre le body te post (lines (hs ! i))
         \<and> length (filter (\<lambda>c. ctype c \<noteq> Equal) pre)
             = length (changed_lines (concat (map lines (take i hs))))
         \<and> leading_context (lines (hs ! i)) = min 3 (length le)
         \<and> trailing_context (lines (hs ! i)) = min 3 (length te)"
    by (elim exE conjE)
  have hs: "hs = [?h]" using d unfolding diff_hunks_five by simp
  have "0 < length hs" unfolding hs by simp
  from w[rule_format, OF this] obtain pre le body te post where
    p: "changes = pre @ le @ body @ te @ post"
       "hunk_window 3 pre le body te post (lines (hs ! 0))"
       "leading_context (lines (hs ! 0)) = min 3 (length le)"
       "trailing_context (lines (hs ! 0)) = min 3 (length te)"
    by (elim exE conjE)
  have l: "lines (hs ! 0) = ['' l2'', '' l3'', '' l4'', ''-l5'', ''+five'', '' l6'', '' l7'', '' l8'']"
    unfolding hs by simp
  have c: "changes = the (backtrack ?A ?B)" using b by simp
  have "3 = min 3 (length le)" "3 = min 3 (length te)"
    using p(3,4) unfolding l context_five by simp_all
  moreover have "the (backtrack ?A ?B) = pre @ le @ body @ te @ post"
    using p(1) c by simp
  moreover have "hunk_window 3 pre le body te post ['' l2'', '' l3'', '' l4'', ''-l5'', ''+five'', '' l6'', '' l7'', '' l8'']"
    using p(2) unfolding l .
  ultimately show ?thesis unfolding backtrack_five option.sel using diff_hunks_five by blast
qed

section \<open>The range of \<^verbatim>\<open>context_lines\<close> at the tool interface\<close>

lemma context_lines_schema_num:
  "z_default 3 (z_max 20 (z_min 0 (z_int z_number))) (JNum x) =
     (if of_int \<lfloor>x\<rfloor> \<noteq> x then Inl Not_integer
      else if x < 0 then Inl Too_small
      else if 20 < x then Inl Too_big else Inr x)"
  by (simp add: z_default_def z_max_def z_min_def z_int_def z_number_def)

lemma context_lines_schema_absent:
  "z_default 3 (z_max 20 (z_min 0 (z_int z_number))) JUndefined = Inr 3"
  by (simp add: z_default_def)

lemma integral_iff: "of_int \<lfloor>x\<rfloor> = x \<longleftrightarrow> (x::rat) \<in> \<int>"
  by (metis Ints_of_int floor_of_int Ints_cases)

lemma inputSchema_rejects:
  assumes "z_default 3 (z_max 20 (z_min 0 (z_int z_number))) (arg_context_lines args) = Inl e"
  shows "\<exists>e'. cc_diff_files_inputSchema args = Inl e'"
  unfolding cc_diff_files_inputSchema_def assms by (simp split: sum.splits)

text \<open>
  C10. At the interface of the tool \<^verbatim>\<open>cc_diff_files\<close> the argument \<^verbatim>\<open>context_lines\<close> is an
  integer from 0 to 20 with the default 3. With two valid file arguments, a call without
  \<^verbatim>\<open>context_lines\<close> reaches the handler with the value 3 and a call with an integer from 0
  to 20 reaches it with that value. A call whose \<^verbatim>\<open>context_lines\<close> is a number that is
  negative, greater than 20 or not an integer is answered with a validation error
  whatever the handler is: the handler, and with it the diff engine, is not called.
\<close>

theorem C10_context_lines_range:
  "(arg_file_a args = JStr a \<and> a \<noteq> [] \<and> arg_file_b args = JStr b \<and> b \<noteq> [] \<longrightarrow>
      (arg_context_lines args = JUndefined \<longrightarrow>
         cc_diff_files handler args = Inr (handler \<lparr>file_a = a, file_b = b, context_lines = 3\<rparr>))
    \<and> (arg_context_lines args = JNum x \<and> x \<in> \<int> \<and> 0 \<le> x \<and> x \<le> 20 \<longrightarrow>
         cc_diff_files handler args = Inr (handler \<lparr>file_a = a, file_b = b, context_lines = x\<rparr>)))
   \<and> (arg_context_lines args = JNum x \<and> (x < 0 \<or> 20 < x \<or> x \<notin> \<int>) \<longrightarrow>
        (\<exists>e. \<forall>h::diff_params \<Rightarrow> 'r. cc_diff_files h args = Inl e))"
proof (intro conjI impI)
  assume f: "arg_file_a args = JStr a \<and> a \<noteq> [] \<and> arg_file_b args = JStr b \<and> b \<noteq> []"
  then have s: "z_min_length 1 z_string (JStr a) = Inr a" "z_min_length 1 z_string (JStr b) = Inr b"
    by (simp_all add: z_min_length_def z_string_def Suc_le_eq)
  from f have fa: "arg_file_a args = JStr a" and fb: "arg_file_b args = JStr b" by blast+
  have v: "cc_diff_files_inputSchema args =
      (case z_default 3 (z_max 20 (z_min 0 (z_int z_number))) (arg_context_lines args) of
         Inl e \<Rightarrow> Inl e
       | Inr k \<Rightarrow> Inr \<lparr>file_a = a, file_b = b, context_lines = k\<rparr>)"
    unfolding cc_diff_files_inputSchema_def fa fb s by simp
  show "cc_diff_files handler args = Inr (handler \<lparr>file_a = a, file_b = b, context_lines = 3\<rparr>)"
    if "arg_context_lines args = JUndefined"
    unfolding cc_diff_files_def registerTool_def v that context_lines_schema_absent by simp
  show "cc_diff_files handler args = Inr (handler \<lparr>file_a = a, file_b = b, context_lines = x\<rparr>)"
    if "arg_context_lines args = JNum x \<and> x \<in> \<int> \<and> 0 \<le> x \<and> x \<le> 20"
  proof -
    from that have c: "arg_context_lines args = JNum x" and x: "of_int \<lfloor>x\<rfloor> = x" "0 \<le> x" "x \<le> 20"
      using integral_iff[of x] by blast+
    have "z_default 3 (z_max 20 (z_min 0 (z_int z_number))) (JNum x) = Inr x"
      unfolding context_lines_schema_num using x by simp
    then show ?thesis unfolding cc_diff_files_def registerTool_def v c by simp
  qed
next
  assume r: "arg_context_lines args = JNum x \<and> (x < 0 \<or> 20 < x \<or> x \<notin> \<int>)"
  then have c: "arg_context_lines args = JNum x" and x: "x < 0 \<or> 20 < x \<or> of_int \<lfloor>x\<rfloor> \<noteq> x"
    using integral_iff[of x] by blast+
  have "\<exists>e. z_default 3 (z_max 20 (z_min 0 (z_int z_number))) (arg_context_lines args) = Inl e"
    unfolding c context_lines_schema_num using x by auto
  then obtain e where "z_default 3 (z_max 20 (z_min 0 (z_int z_number))) (arg_context_lines args) = Inl e" ..
  from inputSchema_rejects[OF this] obtain e' where "cc_diff_files_inputSchema args = Inl e'" ..
  then have "\<forall>h::diff_params \<Rightarrow> 'r. cc_diff_files h args = Inl e'"
    unfolding cc_diff_files_def registerTool_def by simp
  then show "\<exists>e. \<forall>h::diff_params \<Rightarrow> 'r. cc_diff_files h args = Inl e" ..
qed

theorem C10_context_lines_range_witness:
  "cc_diff_files (\<lambda>p. context_lines p) \<lparr>arg_file_a = JStr ''a.txt'', arg_file_b = JStr ''b.txt'', arg_context_lines = JUndefined\<rparr> = Inr 3
   \<and> cc_diff_files (\<lambda>p. context_lines p) \<lparr>arg_file_a = JStr ''a.txt'', arg_file_b = JStr ''b.txt'', arg_context_lines = JNum 20\<rparr> = Inr 20
   \<and> (\<exists>e. \<forall>h::diff_params \<Rightarrow> rat. cc_diff_files h \<lparr>arg_file_a = JStr ''a.txt'', arg_file_b = JStr ''b.txt'', arg_context_lines = JNum 21\<rparr> = Inl e)
   \<and> (\<exists>e. \<forall>h::diff_params \<Rightarrow> rat. cc_diff_files h \<lparr>arg_file_a = JStr ''a.txt'', arg_file_b = JStr ''b.txt'', arg_context_lines = JNum (- 1)\<rparr> = Inl e)
   \<and> (\<exists>e. \<forall>h::diff_params \<Rightarrow> rat. cc_diff_files h \<lparr>arg_file_a = JStr ''a.txt'', arg_file_b = JStr ''b.txt'', arg_context_lines = JNum (5 / 2)\<rparr> = Inl e)"
proof -
  let ?args = "\<lambda>v. \<lparr>arg_file_a = JStr ''a.txt'', arg_file_b = JStr ''b.txt'', arg_context_lines = v\<rparr>"
  have f: "arg_file_a (?args v) = JStr ''a.txt'' \<and> ''a.txt'' \<noteq> []
        \<and> arg_file_b (?args v) = JStr ''b.txt'' \<and> ''b.txt'' \<noteq> []" for v
    by simp
  have half: "(5 / 2 :: rat) \<notin> \<int>"
  proof
    assume "(5 / 2 :: rat) \<in> \<int>"
    then obtain k :: int where "(5 / 2 :: rat) = of_int k" by (auto elim: Ints_cases)
    then have "(of_int 5 :: rat) = of_int (2 * k)" by simp
    then have "5 = 2 * k" by (simp only: of_int_eq_iff)
    then show False by presburger
  qed
  note t = C10_context_lines_range[where a = "''a.txt''" and b = "''b.txt''" and handler = "\<lambda>p. context_lines p"]
  have "cc_diff_files (\<lambda>p. context_lines p) (?args JUndefined) = Inr 3"
    using t[of "?args JUndefined" 0] f[of JUndefined] by simp
  moreover have "cc_diff_files (\<lambda>p. context_lines p) (?args (JNum 20)) = Inr 20"
    using t[of "?args (JNum 20)" 20] f[of "JNum 20"] by simp
  moreover have "\<exists>e. \<forall>h::diff_params \<Rightarrow> rat. cc_diff_files h (?args (JNum 21)) = Inl e"
    using t[of "?args (JNum 21)" 21] by simp
  moreover have "\<exists>e. \<forall>h::diff_params \<Rightarrow> rat. cc_diff_files h (?args (JNum (- 1))) = Inl e"
    using t[of "?args (JNum (- 1))" "- 1"] by simp
  moreover have "\<exists>e. \<forall>h::diff_params \<Rightarrow> rat. cc_diff_files h (?args (JNum (5 / 2))) = Inl e"
    using t[of "?args (JNum (5 / 2))" "5 / 2"] half by simp
  ultimately show ?thesis by blast
qed

end
